theory Spec2Isabelle
  imports Main "HOL-Library.Sublist" "HOL-Library.Multiset"
begin

section \<open>Strings\<close>

text \<open>
  A Go string holds bytes; every string the decoders see comes out of \<^verbatim>\<open>encoding/json\<close>,
  which delivers valid UTF-8. Such a string is modelled as the list of its code points
  (runes). The tokens the code searches for (\<^verbatim>\<open><br />\<close>, \<^verbatim>\<open>MER :\<close>, a newline) are
  ASCII, so searching bytes and searching runes find the same occurrences, and
  \<^verbatim>\<open>strings.TrimSpace\<close> works on runes anyway.
\<close>

type_synonym rune = nat
type_synonym gostring = "rune list"

definition asc :: "string \<Rightarrow> gostring" where
  "asc s = map of_char s"

definition NL :: rune where
  "NL = 10"

text \<open>\<^verbatim>\<open>unicode.IsSpace\<close>: the Latin-1 spaces and the code points of category Z / White_Space.\<close>

definition IsSpace :: "rune \<Rightarrow> bool" where
  "IsSpace r \<longleftrightarrow>
     r = 9 \<or> r = 10 \<or> r = 11 \<or> r = 12 \<or> r = 13 \<or> r = 32 \<or> r = 133 \<or> r = 160 \<or>
     r = 5760 \<or> (8192 \<le> r \<and> r \<le> 8202) \<or> r = 8232 \<or> r = 8233 \<or> r = 8239 \<or>
     r = 8287 \<or> r = 12288"

text \<open>\<^verbatim>\<open>strings.TrimSpace\<close>: drop the white space at both ends.\<close>

definition TrimSpace :: "gostring \<Rightarrow> gostring" where
  "TrimSpace s = rev (dropWhile IsSpace (rev (dropWhile IsSpace s)))"

text \<open>\<^verbatim>\<open>strings.Index(s, sep)\<close>: the position of the first occurrence, \<open>None\<close> for -1.\<close>

fun Index :: "gostring \<Rightarrow> gostring \<Rightarrow> nat option" where
  "Index s sep =
     (if prefix sep s then Some 0
      else (case s of [] \<Rightarrow> None | c # cs \<Rightarrow> map_option Suc (Index cs sep)))"

declare Index.simps [simp del]

lemma Index_Nil: "Index [] sep = (if sep = [] then Some 0 else None)"
  by (simp add: Index.simps [of "[]"])

lemma Index_Cons:
  "Index (c # cs) sep =
     (if prefix sep (c # cs) then Some 0 else map_option Suc (Index cs sep))"
  by (simp add: Index.simps [of "c # cs"])

lemma Index_bound: "Index s sep = Some i \<Longrightarrow> i + length sep \<le> length s"
proof (induction s arbitrary: i)
  case Nil
  then show ?case by (auto simp: Index_Nil split: if_splits)
next
  case (Cons c cs)
  show ?case
  proof (cases "prefix sep (c # cs)")
    case True
    with Cons.prems show ?thesis by (auto simp: Index_Cons dest: prefix_length_le)
  next
    case False
    with Cons.prems obtain j where "Index cs sep = Some j" "i = Suc j"
      by (auto simp: Index_Cons)
    with Cons.IH show ?thesis by fastforce
  qed
qed

text \<open>
  \<^verbatim>\<open>strings.Split(s, sep)\<close>: cut at each occurrence found by \<open>Index\<close>, left to right, the
  occurrences not overlapping; an empty separator explodes the string into its runes.
\<close>

function Split :: "gostring \<Rightarrow> gostring \<Rightarrow> gostring list" where
  "Split s sep =
     (if sep = [] then map (\<lambda>c. [c]) s
      else (case Index s sep of
              None \<Rightarrow> [s]
            | Some m \<Rightarrow> take m s # Split (drop (m + length sep) s) sep))"
  by pat_completeness auto
termination
proof (relation "measure (\<lambda>(s, sep). length s)")
  show "wf (measure (\<lambda>(s, sep). length s))" by simp
next
  fix s sep :: gostring and m
  assume "sep \<noteq> []" and "Index s sep = Some m"
  then have "m + length sep \<le> length s" and "0 < length sep"
    using Index_bound [of s sep m] by simp_all
  then have "length s - (m + length sep) < length s"
    by arith
  then show "((drop (m + length sep) s, sep), (s, sep)) \<in> measure (\<lambda>(s, sep). length s)"
    by simp
qed

text \<open>
  \<^verbatim>\<open>strings.Replace(s, old, new, -1)\<close>: every occurrence found by \<open>Index\<close>, left to right
  and not overlapping, gives way to \<open>new\<close>; an empty \<open>old\<close> matches before every rune
  and at the end.
\<close>

function Replace :: "gostring \<Rightarrow> gostring \<Rightarrow> gostring \<Rightarrow> gostring" where
  "Replace s old new =
     (if old = [] then new @ concat (map (\<lambda>c. c # new) s)
      else (case Index s old of
              None \<Rightarrow> s
            | Some j \<Rightarrow> take j s @ new @ Replace (drop (j + length old) s) old new))"
  by pat_completeness auto
termination
proof (relation "measure (\<lambda>(s, old, new). length s)")
  show "wf (measure (\<lambda>(s, old, new). length s))" by simp
next
  fix s old new :: gostring and j
  assume "old \<noteq> []" and "Index s old = Some j"
  then have "j + length old \<le> length s" and "0 < length old"
    using Index_bound [of s old j] by simp_all
  then have "length s - (j + length old) < length s"
    by arith
  then show "((drop (j + length old) s, old, new), (s, old, new))
               \<in> measure (\<lambda>(s, old, new). length s)"
    by simp
qed

declare Split.simps [simp del] Replace.simps [simp del]

text \<open>
  \<^verbatim>\<open>reLines.ReplaceAllString(s, "\n")\<close> with \<^verbatim>\<open>reLines = `\n+`\<close>: each maximal run of
  newlines gives way to a single newline.
\<close>

function reLinesReplace :: "gostring \<Rightarrow> gostring" where
  "reLinesReplace [] = []"
| "reLinesReplace (c # cs) =
     (if c = NL then NL # reLinesReplace (dropWhile (\<lambda>x. x = NL) cs)
      else c # reLinesReplace cs)"
  by pat_completeness auto
termination
  by (relation "measure length") (auto simp: less_Suc_eq_le length_dropWhile_le)

section \<open>The text normalizer (serve.go)\<close>

definition brToken :: gostring where
  "brToken = asc ''<br />''"

definition htmlToText :: "gostring \<Rightarrow> gostring" where
  "htmlToText html =
     (let s = Replace html brToken [NL];
          s = TrimSpace s;
          s = reLinesReplace s
      in s)"

text \<open>\<^verbatim>\<open>%d\<close> of a slice length: the decimal digits.\<close>

function decimal :: "nat \<Rightarrow> gostring" where
  "decimal n = (if n < 10 then [48 + n] else decimal (n div 10) @ [48 + n mod 10])"
  by pat_completeness auto
termination
  by (relation "measure id") auto

declare decimal.simps [simp del]

section \<open>The two-report decoder (serve.go)\<close>

text \<open>
  The structs of serve.go. Three of them have a field \<^verbatim>\<open>Title\<close>; the fields of
  \<^verbatim>\<open>Region\<close>, \<^verbatim>\<open>Echeance\<close> and \<^verbatim>\<open>Forecast\<close> are \<open>RTitle\<close>, \<open>ETitle\<close> and \<open>FTitle\<close> here.
\<close>

record Region =
  RTitle :: gostring
  Situation :: gostring
  Observation :: gostring
  WindAndSea :: gostring
  Swell :: gostring
  Weather :: gostring
  Visibility :: gostring

record Echeance =
  ETitle :: gostring
  Kind :: gostring
  Regions :: "Region list"

record Report =
  Title :: gostring
  Special :: gostring
  Header :: gostring
  Footer :: gostring
  Units :: gostring
  Echeances :: "Echeance list"

record Forecast =
  Id :: gostring
  FTitle :: gostring
  Content :: gostring

text \<open>
  \<open>Errorf\<close> is an error value made by \<^verbatim>\<open>fmt.Errorf\<close>, with its message; \<open>NilDeref\<close> is the
  run-time panic of reading a field through a nil pointer.
\<close>

datatype error = Errorf gostring | NilDeref

text \<open>The loop over \<^verbatim>\<open>parts\<close>, appending to the slice \<^verbatim>\<open>content\<close>.\<close>

fun formatParts :: "gostring list \<Rightarrow> gostring list \<Rightarrow> gostring list" where
  "formatParts content [] = content"
| "formatParts content (part # parts) =
     (if part = [] then formatParts content parts
      else (let part = htmlToText part;
                part = TrimSpace part
            in formatParts (content @ [part, [NL]]) parts))"

text \<open>The loop over \<^verbatim>\<open>e.Regions\<close>.\<close>

fun formatRegions :: "gostring list \<Rightarrow> Region list \<Rightarrow> gostring list" where
  "formatRegions content [] = content"
| "formatRegions content (a # regions) =
     (let parts = [Situation a, Observation a, WindAndSea a, Swell a, Weather a, Visibility a]
      in formatRegions (formatParts content parts) regions)"

text \<open>The loop over \<^verbatim>\<open>r.Echeances\<close>.\<close>

fun formatEcheances :: "gostring list \<Rightarrow> Echeance list \<Rightarrow> gostring list" where
  "formatEcheances content [] = content"
| "formatEcheances content (e # echeances) =
     (let content = content @ [asc ''# '', ETitle e, [NL, NL]];
          content = formatRegions content (Regions e);
          content = content @ [[NL, NL]]
      in formatEcheances content echeances)"

text \<open>
  \<^verbatim>\<open>formatReport(reports []*Report)\<close>: the slice holds pointers, \<open>None\<close> for nil (a JSON
  \<^verbatim>\<open>null\<close>). \<^verbatim>\<open>strings.Join(content, "")\<close> is \<open>concat\<close>; \<^verbatim>\<open>Id\<close> is left at its zero value.
\<close>

definition formatReport :: "Report option list \<Rightarrow> error + Forecast" where
  "formatReport reports =
     (if length reports \<noteq> 2
      then Inl (Errorf (asc ''2 reports expected, go '' @ decimal (length reports)))
      else (case reports ! 1 of
              None \<Rightarrow> Inl NilDeref
            | Some r \<Rightarrow>
                (let content = [];
                     content = content @ [Title r, [NL, NL]];
                     content = content @ [htmlToText (Header r), [NL]];
                     content = content @ [htmlToText (Footer r), [NL, NL]];
                     content = content @ [htmlToText (Special r), [NL, NL]];
                     content = formatEcheances content (Echeances r)
                 in Inr \<lparr>Id = [], FTitle = Title r, Content = concat content\<rparr>)))"

text \<open>
  The layout of the content, to state what the loops above produce: the paragraphs of a
  region, the text of a region and the text of a horizon.
\<close>

definition paragraphs :: "Region \<Rightarrow> gostring list" where
  "paragraphs a =
     map htmlToText
       (filter (\<lambda>part. part \<noteq> [])
          [Situation a, Observation a, WindAndSea a, Swell a, Weather a, Visibility a])"

definition regionText :: "Region \<Rightarrow> gostring" where
  "regionText a = concat (map (\<lambda>p. p @ [NL]) (paragraphs a))"

definition echeanceText :: "Echeance \<Rightarrow> gostring" where
  "echeanceText e =
     asc ''# '' @ ETitle e @ [NL, NL] @ concat (map regionText (Regions e)) @ [NL, NL]"

section \<open>The single-bulletin decoder (metmar.go)\<close>

text \<open>
  The structs of metmar.go: its \<^verbatim>\<open>Region\<close> is \<open>Area\<close> here, its \<^verbatim>\<open>Echeance\<close> is
  \<open>Horizon\<close>, and the fields that serve.go has too carry the letter of their struct.
\<close>

record Area =
  ASituation :: gostring
  AObservation :: gostring
  AWindAndSea :: gostring
  Waves :: gostring
  AVisibility :: gostring
  Confidence :: gostring

record Horizon =
  HTitle :: gostring
  Areas :: "Area option list"

record Bulletin =
  BTitle :: gostring
  BSpecial :: gostring
  BEcheances :: "Horizon option list"

definition seaMarker :: gostring where
  "seaMarker = asc ''MER :''"

text \<open>The closure \<^verbatim>\<open>w("%s\n", s)\<close> appends to the buffer; \<^verbatim>\<open>wif\<close> skips the empty string.\<close>

definition wif :: "gostring \<Rightarrow> gostring \<Rightarrow> gostring" where
  "wif buf s = (if s \<noteq> [] then buf @ Replace s brToken [NL] @ [NL] else buf)"

text \<open>The wind and sea field of one region (the \<^verbatim>\<open>strings.Split\<close> and its two branches).\<close>

definition wifWindAndSea :: "gostring \<Rightarrow> gostring \<Rightarrow> gostring" where
  "wifWindAndSea buf field =
     (let parts = Split field seaMarker
      in if length parts = 2
         then (let buf = wif buf (parts ! 0) in wif buf (seaMarker @ parts ! 1))
         else wif buf field)"

text \<open>The body of the loop over \<^verbatim>\<open>e.Areas\<close>, for one region.\<close>

definition formatArea :: "gostring \<Rightarrow> Area \<Rightarrow> gostring" where
  "formatArea buf r =
     (let buf = wif buf (ASituation r);
          buf = wif buf (AObservation r);
          buf = wifWindAndSea buf (AWindAndSea r);
          buf = wif buf (Waves r);
          buf = wif buf (AVisibility r);
          buf = wif buf (Confidence r)
      in buf)"

fun formatAreas :: "gostring \<Rightarrow> Area option list \<Rightarrow> error + gostring" where
  "formatAreas buf [] = Inr buf"
| "formatAreas buf (None # areas) = Inl NilDeref"
| "formatAreas buf (Some r # areas) = formatAreas (formatArea buf r) areas"

fun formatHorizons :: "gostring \<Rightarrow> Horizon option list \<Rightarrow> error + gostring" where
  "formatHorizons buf [] = Inr buf"
| "formatHorizons buf (None # echeances) = Inl NilDeref"
| "formatHorizons buf (Some e # echeances) =
     (case formatAreas (buf @ HTitle e @ [NL]) (Areas e) of
        Inl err \<Rightarrow> Inl err
      | Inr buf \<Rightarrow> formatHorizons (buf @ [NL]) echeances)"

text \<open>\<^verbatim>\<open>formatReport(b *Bulletin)\<close> of metmar.go; the accented letter of its header is U+00E9.\<close>

definition formatBulletin :: "Bulletin option \<Rightarrow> error + gostring" where
  "formatBulletin b =
     (case b of
        None \<Rightarrow> Inl NilDeref
      | Some b \<Rightarrow>
          (let buf = [];
               buf = buf @ BTitle b @ [NL];
               buf = buf @ asc ''Bulletin sp'' @ [233] @ asc ''cial: '' @ BSpecial b @ [NL];
               buf = buf @ [NL]
           in formatHorizons buf (BEcheances b)))"

section \<open>The gale timeline (gale.go, current version)\<close>

text \<open>A \<^verbatim>\<open>time.Time\<close> is an instant, here a number on the time line; \<^verbatim>\<open>Before\<close> is \<open><\<close>.\<close>

type_synonym time = int

record GaleWarning =
  Number :: int
  Date :: time

text \<open>
  One call of the function handed to \<^verbatim>\<open>filepath.Walk\<close>, with what the libraries answer for
  that path: the error Walk passes in, whether the file is regular, whether \<^verbatim>\<open>rePath\<close>
  matches and then what \<^verbatim>\<open>time.Parse\<close> gives for the stamp, and what
  \<^verbatim>\<open>extractWarningNumber\<close> reads from the file (0 when no line announces a number).
\<close>

record visit =
  walkErr :: "error option"
  isRegular :: bool
  stamp :: "(error + time) option"
  fileNumber :: "error + int"

definition walkFn :: "GaleWarning list \<Rightarrow> visit \<Rightarrow> GaleWarning list \<times> error option" where
  "walkFn warnings v =
     (if walkErr v \<noteq> None \<or> \<not> isRegular v then (warnings, walkErr v)
      else (case stamp v of
              None \<Rightarrow> (warnings, None)
            | Some (Inl err) \<Rightarrow> (warnings, Some err)
            | Some (Inr d) \<Rightarrow>
                (case fileNumber v of
                   Inl err \<Rightarrow> (warnings, Some err)
                 | Inr n \<Rightarrow> (warnings @ [\<lparr>Number = n, Date = d\<rparr>], None))))"

text \<open>\<^verbatim>\<open>filepath.Walk\<close> stops at the first error the function returns, and returns it.\<close>

fun Walk :: "GaleWarning list \<Rightarrow> visit list \<Rightarrow> GaleWarning list \<times> error option" where
  "Walk warnings [] = (warnings, None)"
| "Walk warnings (v # vs) =
     (case walkFn warnings v of
        (warnings, Some err) \<Rightarrow> (warnings, Some err)
      | (warnings, None) \<Rightarrow> Walk warnings vs)"

definition Less :: "GaleWarning \<Rightarrow> GaleWarning \<Rightarrow> bool" where
  "Less a b \<longleftrightarrow> Date a < Date b"

text \<open>
  \<^verbatim>\<open>sort.Sort\<close> belongs to the Go library, whose algorithm has changed between releases.
  What its documentation promises for a call on \<open>xs\<close> that leaves \<open>ys\<close>: the same elements,
  in ascending order as \<^verbatim>\<open>Less\<close> has it; "the sort is not guaranteed to be stable".
\<close>

definition sortPost :: "GaleWarning list \<Rightarrow> GaleWarning list \<Rightarrow> bool" where
  "sortPost xs ys \<longleftrightarrow> mset ys = mset xs \<and> sorted_wrt (\<lambda>a b. \<not> Less b a) ys"

text \<open>The loop that fills the reports without a warning, \<open>num\<close> being its running number.\<close>

fun fill :: "int \<Rightarrow> GaleWarning list \<Rightarrow> GaleWarning list" where
  "fill num [] = []"
| "fill num (w # warnings) =
     (if Number w \<noteq> 0 then w # fill (Number w) warnings
      else w\<lparr>Number := num\<rparr> # fill num warnings)"

text \<open>\<^verbatim>\<open>extractWarningNumbers\<close>, the library's sort being the parameter \<open>Sort\<close>.\<close>

definition extractWarningNumbers ::
    "(GaleWarning list \<Rightarrow> GaleWarning list) \<Rightarrow> visit list \<Rightarrow> GaleWarning list \<times> error option" where
  "extractWarningNumbers Sort dir =
     (case Walk [] dir of
        (warnings, err) \<Rightarrow>
          (let warnings = Sort warnings;
               warnings = fill 1 warnings
           in (warnings, err)))"

text \<open>
  What \<^verbatim>\<open>serveGaleWarnings\<close> takes from package \<^verbatim>\<open>time\<close> and from the conversion to
  \<^verbatim>\<open>float64\<close>, \<open>'f\<close> standing for the floating-point numbers: the current instant, the
  first instant (UTC) of the year an instant lies in, the days between two instants,
  the formatted date and the day of the year.
\<close>

record 'f timepkg =
  Now :: time
  Jan1 :: "time \<Rightarrow> time"
  DeltaDays :: "time \<Rightarrow> time \<Rightarrow> 'f"
  float64 :: "int \<Rightarrow> 'f"
  Format :: "time \<Rightarrow> gostring"
  YearDay :: "time \<Rightarrow> int"
  Date2016 :: time

record 'f warningOffset =
  X :: 'f
  Y :: 'f
  DateText :: gostring
  YearDayNo :: int

text \<open>
  The virtual points of the beginning of the year and of the current day, as
  \<^verbatim>\<open>serveGaleWarnings\<close> adds them to what the extraction returned.
\<close>

definition virtualPoints :: "time \<Rightarrow> time \<Rightarrow> GaleWarning list \<Rightarrow> GaleWarning list" where
  "virtualPoints now jan1 warnings =
     (let warnings =
            (if length warnings = 0 \<or> jan1 < Date (warnings ! 0)
             then [\<lparr>Number = 0, Date = jan1\<rparr>] @ warnings
             else warnings)
      in warnings @ [\<lparr>Number = Number (warnings ! (length warnings - 1)), Date = now\<rparr>])"

definition offsetOf :: "'f timepkg \<Rightarrow> GaleWarning \<Rightarrow> 'f warningOffset" where
  "offsetOf T w =
     \<lparr>X = DeltaDays T (Date w) (Date2016 T),
      Y = float64 T (Number w),
      DateText = Format T (Date w),
      YearDayNo = YearDay T (Date w)\<rparr>"

text \<open>The same point on the reference line: \<^verbatim>\<open>offset.Y = float64(offset.YearDay)\<close>.\<close>

definition refOf :: "'f timepkg \<Rightarrow> GaleWarning \<Rightarrow> 'f warningOffset" where
  "refOf T w = (let offset = offsetOf T w in offset\<lparr>Y := float64 T (YearDayNo offset)\<rparr>)"

text \<open>
  \<^verbatim>\<open>serveGaleWarnings\<close> up to the two series \<^verbatim>\<open>offsets\<close> and \<^verbatim>\<open>refs\<close> that it marshals
  into the page.
\<close>

definition serveGaleWarnings ::
    "'f timepkg \<Rightarrow> (GaleWarning list \<Rightarrow> GaleWarning list) \<Rightarrow> visit list
       \<Rightarrow> error + ('f warningOffset list \<times> 'f warningOffset list)" where
  "serveGaleWarnings T Sort galeDir =
     (case extractWarningNumbers Sort galeDir of
        (warnings, Some err) \<Rightarrow> Inl err
      | (warnings, None) \<Rightarrow>
          (let now = Now T;
               jan1 = Jan1 T now;
               warnings = virtualPoints now jan1 warnings;
               offsets = map (offsetOf T) warnings;
               refs = map (refOf T) warnings
           in Inr (offsets, refs)))"

section \<open>A sort of the Go library\<close>

text \<open>
  From Go 1.6 to Go 1.18, \<^verbatim>\<open>sort.Sort\<close> on a slice of at most 12 elements is one pass of
  Shell sort with gap 6 followed by an insertion sort, both through \<^verbatim>\<open>Less\<close> and
  \<^verbatim>\<open>Swap\<close> of \<^verbatim>\<open>sortedWarnings\<close>. On longer slices the library partitions first; the
  function below is the library's only up to 12 elements.
\<close>

definition Swap :: "nat \<Rightarrow> nat \<Rightarrow> GaleWarning list \<Rightarrow> GaleWarning list" where
  "Swap i j s = s[i := s ! j, j := s ! i]"

fun insertionLoop :: "nat \<Rightarrow> GaleWarning list \<Rightarrow> GaleWarning list" where
  "insertionLoop 0 s = s"
| "insertionLoop (Suc j) s =
     (if Less (s ! Suc j) (s ! j) then insertionLoop j (Swap (Suc j) j s) else s)"

definition insertionSort :: "GaleWarning list \<Rightarrow> GaleWarning list" where
  "insertionSort s = fold insertionLoop [1..<length s] s"

definition shellPass :: "GaleWarning list \<Rightarrow> GaleWarning list" where
  "shellPass s =
     fold (\<lambda>i s. if Less (s ! i) (s ! (i - 6)) then Swap i (i - 6) s else s) [6..<length s] s"

definition sortUpTo12 :: "GaleWarning list \<Rightarrow> GaleWarning list" where
  "sortUpTo12 s = (if 1 < length s then insertionSort (shellPass s) else s)"

text \<open>
  A regular file whose name matches, stamped \<open>d\<close>, in which \<^verbatim>\<open>extractWarningNumber\<close>
  reads \<open>n\<close>.
\<close>

definition snapshot :: "time \<Rightarrow> int \<Rightarrow> visit" where
  "snapshot d n = \<lparr>walkErr = None, isRegular = True, stamp = Some (Inr d), fileNumber = Inr n\<rparr>"

section \<open>Properties of the string functions\<close>

lemma Index_None_iff: "Index s t = None \<longleftrightarrow> \<not> sublist t s"
proof (induction s)
  case Nil
  then show ?case by (simp add: Index_Nil)
next
  case (Cons c cs)
  then show ?case by (auto simp: Index_Cons sublist_Cons_right)
qed

lemma Index_prefix: "Index s t = Some j \<Longrightarrow> prefix t (drop j s)"
proof (induction s arbitrary: j)
  case Nil
  then show ?case by (simp add: Index_Nil split: if_splits)
next
  case (Cons c cs)
  then show ?case by (auto simp: Index_Cons split: if_splits)
qed

lemma Index_split: "Index s t = Some j \<Longrightarrow> s = take j s @ t @ drop (j + length t) s"
proof -
  assume a: "Index s t = Some j"
  then obtain r where "drop j s = t @ r"
    using Index_prefix [OF a] by (auto simp: prefix_def)
  then have "drop (length t) (drop j s) = r"
    by simp
  then have "drop (j + length t) s = r"
    by (simp add: add.commute)
  with \<open>drop j s = t @ r\<close> have "t @ drop (j + length t) s = drop j s"
    by simp
  then show ?thesis
    by simp
qed

lemma Index_append_Some: "Index a t = Some j \<Longrightarrow> Index (a @ r) t = Some j"
proof (induction a arbitrary: j)
  case Nil
  then show ?case by (cases r) (auto simp: Index_Nil Index_Cons split: if_splits)
next
  case (Cons c cs)
  show ?case
  proof (cases "prefix t (c # cs)")
    case True
    then have "prefix t ((c # cs) @ r)"
      by (rule prefix_prefix)
    with True Cons.prems show ?thesis
      by (simp add: Index_Cons)
  next
    case False
    with Cons.prems obtain i where i: "Index cs t = Some i" "j = Suc i"
      by (auto simp: Index_Cons)
    have "\<not> prefix t (c # cs @ r)"
    proof
      assume p: "prefix t (c # cs @ r)"
      from i(1) have "length t \<le> length cs"
        using Index_bound [of cs t i] by simp
      then have "length t \<le> length (c # cs)"
        by simp
      moreover have "prefix (c # cs) (c # cs @ r)"
        by simp
      ultimately have "prefix t (c # cs)"
        using p prefix_length_prefix [of t "c # cs @ r" "c # cs"] by simp
      with False show False ..
    qed
    with i Cons.IH show ?thesis
      by (simp add: Index_Cons)
  qed
qed

lemma prefix_token_overlap:
  assumes "hd t \<notin> set (tl t)" and "prefix t (a @ t @ r)" and "a \<noteq> []"
  shows "prefix t a"
proof (rule ccontr)
  assume n: "\<not> prefix t a"
  have lt: "length a < length t"
  proof (rule ccontr)
    assume "\<not> length a < length t"
    then have "length t \<le> length a" by simp
    moreover have "prefix a (a @ t @ r)"
      by simp
    ultimately have "prefix t a"
      using assms(2) prefix_length_prefix [of t "a @ t @ r" a] by simp
    with n show False ..
  qed
  with assms(3) have t: "t \<noteq> []" by auto
  from assms(2) obtain zs where "a @ t @ r = t @ zs"
    by (auto simp: prefix_def)
  then have "(a @ t @ r) ! length a = (t @ zs) ! length a"
    by simp
  with lt have "t ! length a = (a @ t @ r) ! length a"
    by (simp add: nth_append)
  also have "\<dots> = hd t"
    using t by (simp add: nth_append hd_conv_nth)
  finally have "t ! length a = hd t" .
  moreover have "t ! length a \<in> set (tl t)"
  proof -
    from lt assms(3) have l: "length a - 1 < length (tl t)"
      by (cases a) simp_all
    then have "tl t ! (length a - 1) = t ! Suc (length a - 1)"
      by (rule nth_tl)
    moreover from assms(3) have "Suc (length a - 1) = length a"
      by (cases a) simp_all
    ultimately show ?thesis
      using l by (metis nth_mem)
  qed
  ultimately show False
    using assms(1) by simp
qed

lemma Index_append_token:
  assumes "t \<noteq> []" and "hd t \<notin> set (tl t)" and "\<not> sublist t a"
  shows "Index (a @ t @ r) t = Some (length a)"
  using assms(3)
proof (induction a)
  case Nil
  then show ?case by (simp add: Index.simps [of "t @ r"])
next
  case (Cons c cs)
  then have ns: "\<not> sublist t cs" and np: "\<not> prefix t (c # cs)"
    by (auto simp: sublist_Cons_right)
  have "\<not> prefix t ((c # cs) @ t @ r)"
    using prefix_token_overlap [OF assms(2), of "c # cs" r] np by auto
  with Cons.IH [OF ns] show ?case
    by (simp add: Index_Cons)
qed

lemma Replace_token_free: "t \<noteq> [] \<Longrightarrow> \<not> sublist t a \<Longrightarrow> Replace a t n = a"
  by (simp add: Replace.simps [of a] Index_None_iff [symmetric])

lemma Split_token_free: "t \<noteq> [] \<Longrightarrow> \<not> sublist t a \<Longrightarrow> Split a t = [a]"
  by (simp add: Split.simps [of a] Index_None_iff [symmetric])

lemma Replace_Some:
  "t \<noteq> [] \<Longrightarrow> Index s t = Some j \<Longrightarrow>
     Replace s t n = take j s @ n @ Replace (drop (j + length t) s) t n"
  by (simp add: Replace.simps [of s])

lemma Split_Some:
  "t \<noteq> [] \<Longrightarrow> Index s t = Some j \<Longrightarrow> Split s t = take j s # Split (drop (j + length t) s) t"
  by (simp add: Split.simps [of s])

lemma Replace_append_token:
  assumes "t \<noteq> []" and "hd t \<notin> set (tl t)"
  shows "Replace (a @ t @ r) t n = Replace a t n @ n @ Replace r t n"
proof (induction a rule: length_induct)
  case (1 a)
  show ?case
  proof (cases "Index a t")
    case None
    then have nf: "\<not> sublist t a"
      by (simp add: Index_None_iff)
    then have "Index (a @ t @ r) t = Some (length a)"
      using assms by (simp add: Index_append_token)
    then have "Replace (a @ t @ r) t n = a @ n @ Replace r t n"
      using assms(1) by (simp add: Replace_Some)
    with nf assms(1) show ?thesis
      by (simp add: Replace_token_free)
  next
    case (Some j)
    then have b: "j + length t \<le> length a"
      by (rule Index_bound)
    let ?a2 = "drop (j + length t) a"
    from b assms(1) have "length ?a2 < length a"
      by (cases t) simp_all
    with 1 have ih: "Replace (?a2 @ t @ r) t n = Replace ?a2 t n @ n @ Replace r t n"
      by blast
    from Some have "Index (a @ t @ r) t = Some j"
      by (rule Index_append_Some)
    then have "Replace (a @ t @ r) t n =
        take j (a @ t @ r) @ n @ Replace (drop (j + length t) (a @ t @ r)) t n"
      using assms(1) by (simp add: Replace_Some)
    also from b have "\<dots> = take j a @ n @ Replace (?a2 @ t @ r) t n"
      by simp
    finally show ?thesis
      using ih Some assms(1) by (simp add: Replace_Some [of t a j])
  qed
qed

lemma Split_append_token:
  assumes "t \<noteq> []" and "hd t \<notin> set (tl t)"
  shows "Split (a @ t @ r) t = Split a t @ Split r t"
proof (induction a rule: length_induct)
  case (1 a)
  show ?case
  proof (cases "Index a t")
    case None
    then have nf: "\<not> sublist t a"
      by (simp add: Index_None_iff)
    then have "Index (a @ t @ r) t = Some (length a)"
      using assms by (simp add: Index_append_token)
    then have "Split (a @ t @ r) t = a # Split r t"
      using assms(1) by (simp add: Split_Some)
    with nf assms(1) show ?thesis
      by (simp add: Split_token_free)
  next
    case (Some j)
    then have b: "j + length t \<le> length a"
      by (rule Index_bound)
    let ?a2 = "drop (j + length t) a"
    from b assms(1) have "length ?a2 < length a"
      by (cases t) simp_all
    with 1 have ih: "Split (?a2 @ t @ r) t = Split ?a2 t @ Split r t"
      by blast
    from Some have "Index (a @ t @ r) t = Some j"
      by (rule Index_append_Some)
    then have "Split (a @ t @ r) t =
        take j (a @ t @ r) # Split (drop (j + length t) (a @ t @ r)) t"
      using assms(1) by (simp add: Split_Some)
    also from b have "\<dots> = take j a # Split (?a2 @ t @ r) t"
      by simp
    finally show ?thesis
      using ih Some assms(1) by (simp add: Split_Some [of t a j])
  qed
qed

lemma Split_nonempty: "t \<noteq> [] \<Longrightarrow> Split s t \<noteq> []"
  by (cases "Index s t") (simp_all add: Split.simps [of s])

lemma IsSpace_NL [simp]: "IsSpace NL"
  by (simp add: IsSpace_def NL_def)

lemma rtrim_prefix: "prefix (rev (dropWhile P (rev u))) u"
proof -
  have "rev u = takeWhile P (rev u) @ dropWhile P (rev u)"
    by simp
  then have "u = rev (dropWhile P (rev u)) @ rev (takeWhile P (rev u))"
    by (metis rev_append rev_rev_ident)
  then show ?thesis
    by (metis prefixI)
qed

lemma TrimSpace_ends:
  "TrimSpace s = [] \<or> \<not> IsSpace (hd (TrimSpace s)) \<and> \<not> IsSpace (last (TrimSpace s))"
proof (cases "TrimSpace s = []")
  case True
  then show ?thesis by simp
next
  case False
  let ?u = "dropWhile IsSpace s"
  let ?v = "dropWhile IsSpace (rev ?u)"
  from False have v: "?v \<noteq> []"
    by (simp add: TrimSpace_def)
  then have "\<not> IsSpace (hd ?v)"
    by (rule hd_dropWhile)
  with v have l: "\<not> IsSpace (last (TrimSpace s))"
    by (simp add: TrimSpace_def last_rev)
  have u: "?u \<noteq> []"
  proof
    assume "?u = []"
    then have "?v = []" by (simp only: rev.simps dropWhile.simps)
    with v show False ..
  qed
  then have "\<not> IsSpace (hd ?u)"
    by (rule hd_dropWhile)
  moreover have "prefix (TrimSpace s) ?u"
    unfolding TrimSpace_def by (rule rtrim_prefix)
  with False have "hd (TrimSpace s) = hd ?u"
    by (auto simp: prefix_def)
  ultimately show ?thesis
    using l by simp
qed

lemma TrimSpace_id:
  assumes "s = [] \<or> \<not> IsSpace (hd s) \<and> \<not> IsSpace (last s)"
  shows "TrimSpace s = s"
proof (cases s)
  case Nil
  then show ?thesis by (simp add: TrimSpace_def)
next
  case (Cons c cs)
  with assms have h: "\<not> IsSpace c" and l: "\<not> IsSpace (last s)"
    by simp_all
  from h Cons have "dropWhile IsSpace s = s"
    by simp
  moreover have r: "rev s = last s # rev (butlast s)"
  proof -
    from Cons have "s \<noteq> []" by simp
    then have "butlast s @ [last s] = s"
      by (rule append_butlast_last_id)
    then have "rev s = rev (butlast s @ [last s])"
      by (simp only:)
    then show ?thesis
      by (simp only: rev_append rev.simps append.simps)
  qed
  have "dropWhile IsSpace (last s # rev (butlast s)) = last s # rev (butlast s)"
    using l by simp
  with r have "dropWhile IsSpace (rev s) = rev s"
    by (simp only:)
  ultimately show ?thesis
    by (simp add: TrimSpace_def)
qed

lemma reLines_Nil_iff [simp]: "reLinesReplace s = [] \<longleftrightarrow> s = []"
  by (cases s) simp_all

lemma reLines_hd: "hd (reLinesReplace s) = hd s"
  by (cases s) simp_all

lemma reLines_last: "s \<noteq> [] \<Longrightarrow> last (reLinesReplace s) = last s"
proof (induction s rule: reLinesReplace.induct)
  case 1
  then show ?case by simp
next
  case (2 c cs)
  show ?case
  proof (cases "c = NL")
    case True
    let ?d = "dropWhile (\<lambda>x. x = NL) cs"
    show ?thesis
    proof (cases "?d = []")
      case e: True
      then have "\<forall>x\<in>set cs. x = NL"
        by (simp add: dropWhile_eq_Nil_conv)
      then have "last (c # cs) = NL"
        using True by (cases "cs = []") simp_all
      with e True show ?thesis by simp
    next
      case ne: False
      have cs: "cs \<noteq> []"
      proof
        assume "cs = []"
        then have "?d = []" by simp
        with ne show False ..
      qed
      have "last ?d = last cs"
        using ne by (metis last_appendR takeWhile_dropWhile_id)
      moreover have "last (reLinesReplace ?d) = last ?d"
        using True ne by (rule 2(1))
      moreover have "reLinesReplace (c # cs) = NL # reLinesReplace ?d"
        using True by simp
      moreover have "reLinesReplace ?d \<noteq> []"
        using ne by (simp only: reLines_Nil_iff not_False_eq_True)
      ultimately have "last (reLinesReplace (c # cs)) = last cs"
        by (simp only: last.simps if_False)
      with cs show ?thesis
        by simp
    qed
  next
    case False
    with 2 show ?thesis by (cases "cs = []") simp_all
  qed
qed

lemma run_Cons:
  "sublist [NL, NL] (c # r) \<longleftrightarrow> c = NL \<and> r \<noteq> [] \<and> hd r = NL \<or> sublist [NL, NL] r"
  by (cases r) (auto simp: sublist_Cons_right)

lemma reLines_no_run: "\<not> sublist [NL, NL] (reLinesReplace s)"
proof (induction s rule: reLinesReplace.induct)
  case 1
  then show ?case by simp
next
  case (2 c cs)
  show ?case
  proof (cases "c = NL")
    case True
    define d where "d = dropWhile (\<lambda>x. x = NL) cs"
    have "d \<noteq> [] \<Longrightarrow> hd d \<noteq> NL"
      unfolding d_def by (fact hd_dropWhile [of "\<lambda>x. x = NL" cs])
    then have "\<not> (reLinesReplace d \<noteq> [] \<and> hd (reLinesReplace d) = NL)"
      by (auto simp: reLines_hd)
    moreover have "\<not> sublist [NL, NL] (reLinesReplace d)"
      unfolding d_def using True by (rule 2(1))
    ultimately have "\<not> sublist [NL, NL] (NL # reLinesReplace d)"
      by (simp only: run_Cons) simp
    with True show ?thesis
      by (simp add: d_def)
  next
    case False
    with 2(2) show ?thesis
      by (simp add: run_Cons)
  qed
qed

lemma reLines_squeeze: "reLinesReplace (p @ NL # NL # q) = reLinesReplace (p @ NL # q)"
proof (induction p rule: reLinesReplace.induct)
  case 1
  then show ?case by simp
next
  case (2 c cs)
  show ?case
  proof (cases "c = NL")
    case True
    show ?thesis
    proof (cases "\<forall>x\<in>set cs. x = NL")
      case all: True
      then have "dropWhile (\<lambda>x. x = NL) (cs @ r) = dropWhile (\<lambda>x. x = NL) r" for r
        by (simp add: dropWhile_append2)
      with True show ?thesis by simp
    next
      case False
      then obtain x where "x \<in> set cs" "x \<noteq> NL" by blast
      then have "dropWhile (\<lambda>x. x = NL) (cs @ r) = dropWhile (\<lambda>x. x = NL) cs @ r" for r
        by (simp add: dropWhile_append1)
      with True 2(1) [OF True] show ?thesis by simp
    qed
  next
    case False
    with 2(2) show ?thesis by simp
  qed
qed

lemma reLines_squeeze_replicate:
  "reLinesReplace (p @ replicate (Suc n) NL @ q) = reLinesReplace (p @ NL # q)"
proof (induction n)
  case 0
  then show ?case by simp
next
  case (Suc n)
  have "reLinesReplace (p @ replicate (Suc (Suc n)) NL @ q) =
      reLinesReplace (p @ NL # NL # replicate n NL @ q)"
    by simp
  also have "\<dots> = reLinesReplace (p @ NL # replicate n NL @ q)"
    by (rule reLines_squeeze)
  finally show ?case
    using Suc by simp
qed

lemma reLines_id: "NL \<notin> set s \<Longrightarrow> reLinesReplace s = s"
  by (induction s) auto

lemma reLines_append_plain: "NL \<notin> set a \<Longrightarrow> reLinesReplace (a @ r) = a @ reLinesReplace r"
  by (induction a) auto

section \<open>Properties of the text normalizer\<close>

lemma brToken_facts:
  "brToken \<noteq> []" "hd brToken \<notin> set (tl brToken)" "NL \<notin> set brToken"
  by (simp_all add: brToken_def asc_def NL_def)

lemma prefix_stop: "c \<notin> set t \<Longrightarrow> prefix t (u @ c # r) \<Longrightarrow> prefix t u"
proof (induction u arbitrary: t)
  case Nil
  then show ?case by (cases t) auto
next
  case (Cons x u)
  then show ?case by (cases t) auto
qed

lemma sublist_stop: "c \<notin> set t \<Longrightarrow> sublist t (u @ c # r) \<Longrightarrow> sublist t u \<or> sublist t r"
proof (induction u)
  case Nil
  then have "prefix t ([] @ c # r) \<or> sublist t r"
    by (simp add: sublist_Cons_right)
  with Nil.prems(1) show ?case
    using prefix_stop [of c t "[]" r] by auto
next
  case (Cons x u)
  from Cons.prems(2) have "prefix t ((x # u) @ c # r) \<or> sublist t (u @ c # r)"
    by (simp add: sublist_Cons_right)
  then show ?case
  proof
    assume "prefix t ((x # u) @ c # r)"
    with Cons.prems(1) have "prefix t (x # u)"
      by (rule prefix_stop)
    then show ?thesis
      by (simp add: prefix_imp_sublist)
  next
    assume "sublist t (u @ c # r)"
    with Cons show ?thesis
      by (auto simp: sublist_Cons_right)
  qed
qed

lemma Index_first:
  assumes "Index s t = Some j" and "t \<noteq> []"
  shows "\<not> sublist t (take j s)"
proof
  assume "sublist t (take j s)"
  then obtain i where i: "Index (take j s) t = Some i"
    using Index_None_iff [of "take j s" t] by auto
  then have "Index (take j s @ drop j s) t = Some i"
    by (rule Index_append_Some)
  with assms(1) have "i = j"
    by simp
  moreover from i have "i + length t \<le> length (take j s)"
    by (rule Index_bound)
  ultimately show False
    using assms(2) by (cases t) simp_all
qed

lemma Replace_no_token:
  assumes "t \<noteq> []" and "NL \<notin> set t"
  shows "\<not> sublist t (Replace s t [NL])"
proof (induction s rule: length_induct)
  case (1 s)
  show ?case
  proof (cases "Index s t")
    case None
    then have "\<not> sublist t s"
      by (simp add: Index_None_iff)
    with assms(1) show ?thesis
      by (simp add: Replace_token_free)
  next
    case (Some j)
    let ?r = "drop (j + length t) s"
    from Some have "j + length t \<le> length s"
      by (rule Index_bound)
    with assms(1) have "length ?r < length s"
      by (cases t) simp_all
    with 1 have r: "\<not> sublist t (Replace ?r t [NL])"
      by blast
    from Some assms(1) have u: "\<not> sublist t (take j s)"
      by (rule Index_first)
    have "Replace s t [NL] = take j s @ NL # Replace ?r t [NL]"
      using Some assms(1) by (simp add: Replace_Some)
    with u r assms(2) show ?thesis
      using sublist_stop [of NL t "take j s" "Replace ?r t [NL]"] by auto
  qed
qed

lemma TrimSpace_sublist: "sublist (TrimSpace s) s"
proof -
  have "prefix (TrimSpace s) (dropWhile IsSpace s)"
    unfolding TrimSpace_def by (rule rtrim_prefix)
  then have "sublist (TrimSpace s) (dropWhile IsSpace s)"
    by (rule prefix_imp_sublist)
  moreover have "sublist (dropWhile IsSpace s) s"
    by (simp add: suffix_dropWhile suffix_imp_sublist)
  ultimately show ?thesis
    by (rule sublist_order.order.trans)
qed

lemma reLines_prefix: "NL \<notin> set t \<Longrightarrow> prefix t (reLinesReplace s) \<Longrightarrow> prefix t s"
proof (induction s arbitrary: t)
  case Nil
  then show ?case by simp
next
  case (Cons c cs)
  then show ?case
    by (cases t) (auto split: if_splits)
qed

lemma reLines_sublist: "NL \<notin> set t \<Longrightarrow> sublist t (reLinesReplace s) \<Longrightarrow> sublist t s"
proof (induction s rule: reLinesReplace.induct)
  case 1
  then show ?case by simp
next
  case (2 c cs)
  show ?case
  proof (cases "prefix t (reLinesReplace (c # cs))")
    case True
    with 2(3) have "prefix t (c # cs)"
      by (rule reLines_prefix)
    then show ?thesis
      by (rule prefix_imp_sublist)
  next
    case np: False
    show ?thesis
    proof (cases "c = NL")
      case True
      define d where "d = dropWhile (\<lambda>x. x = NL) cs"
      from True have e: "reLinesReplace (c # cs) = NL # reLinesReplace d"
        by (simp add: d_def)
      with np 2(4) have "sublist t (reLinesReplace d)"
        by (simp add: sublist_Cons_right)
      with 2(3) have "sublist t d"
        unfolding d_def using True by (intro 2(1))
      moreover have "sublist d (c # cs)"
        unfolding d_def by (simp add: suffix_dropWhile suffix_imp_sublist sublist_Cons_right)
      ultimately show ?thesis
        by (rule sublist_order.order.trans)
    next
      case False
      with np 2(4) have "sublist t (reLinesReplace cs)"
        by (simp add: sublist_Cons_right)
      with False 2(3) have "sublist t cs"
        by (intro 2(2))
      then show ?thesis
        by (simp add: sublist_Cons_right)
    qed
  qed
qed

lemma dropWhile_keeps:
  assumes "x \<in> set u" and "\<not> P x"
  shows "\<exists>y\<in>set (dropWhile P u). \<not> P y"
proof -
  from assms have "dropWhile P u \<noteq> []"
    by (auto simp: dropWhile_eq_Nil_conv)
  then have "hd (dropWhile P u) \<in> set (dropWhile P u)" and "\<not> P (hd (dropWhile P u))"
    by (simp_all add: hd_dropWhile)
  then show ?thesis by blast
qed

lemma Trim_squeeze:
  "reLinesReplace (TrimSpace (u @ NL # NL # v)) = reLinesReplace (TrimSpace (u @ NL # v))"
proof (cases "\<forall>x\<in>set u. IsSpace x")
  case True
  then have "dropWhile IsSpace (u @ w) = dropWhile IsSpace w" for w
    by (simp add: dropWhile_append2)
  then show ?thesis
    by (simp add: TrimSpace_def)
next
  case False
  then obtain x where x: "x \<in> set u" "\<not> IsSpace x"
    by blast
  define u' where "u' = dropWhile IsSpace u"
  from x have l: "dropWhile IsSpace (u @ w) = u' @ w" for w
    by (simp add: dropWhile_append1 u'_def)
  from x obtain y where y: "y \<in> set (rev u')" "\<not> IsSpace y"
    using dropWhile_keeps [of x u IsSpace] by (auto simp: u'_def)
  show ?thesis
  proof (cases "\<forall>x\<in>set v. IsSpace x")
    case True
    have "dropWhile IsSpace (rev v @ w) = dropWhile IsSpace w" for w
      by (rule dropWhile_append2) (use True in simp)
    then show ?thesis
      by (simp add: TrimSpace_def l)
  next
    case False
    then obtain z where z: "z \<in> set (rev v)" "\<not> IsSpace z"
      by auto
    define v' where "v' = rev (dropWhile IsSpace (rev v))"
    from z have "dropWhile IsSpace (rev v @ w) = dropWhile IsSpace (rev v) @ w" for w
      by (simp add: dropWhile_append1)
    then have "TrimSpace (u @ NL # NL # v) = u' @ NL # NL # v'"
      and "TrimSpace (u @ NL # v) = u' @ NL # v'"
      by (simp_all add: TrimSpace_def l v'_def)
    then show ?thesis
      by (simp add: reLines_squeeze)
  qed
qed

lemma Trim_squeeze_replicate:
  "reLinesReplace (TrimSpace (u @ replicate (Suc n) NL @ v)) =
     reLinesReplace (TrimSpace (u @ NL # v))"
proof (induction n)
  case 0
  then show ?case by simp
next
  case (Suc n)
  have "reLinesReplace (TrimSpace (u @ replicate (Suc (Suc n)) NL @ v)) =
      reLinesReplace (TrimSpace (u @ NL # NL # replicate n NL @ v))"
    by simp
  also have "\<dots> = reLinesReplace (TrimSpace (u @ NL # replicate n NL @ v))"
    by (rule Trim_squeeze)
  finally show ?case
    using Suc by simp
qed

lemma Replace_tokens:
  "Replace (a @ concat (replicate n brToken) @ brToken @ b) brToken [NL] =
     Replace a brToken [NL] @ replicate (Suc n) NL @ Replace b brToken [NL]"
proof (induction n arbitrary: a)
  case 0
  then show ?case
    by (simp add: Replace_append_token brToken_facts)
next
  case (Suc n)
  have "Replace (a @ brToken @ (concat (replicate n brToken) @ brToken @ b)) brToken [NL] =
      Replace a brToken [NL] @ [NL] @
      Replace ([] @ concat (replicate n brToken) @ brToken @ b) brToken [NL]"
    by (simp add: Replace_append_token brToken_facts)
  also have "\<dots> = Replace a brToken [NL] @ [NL] @ Replace [] brToken [NL] @
      replicate (Suc n) NL @ Replace b brToken [NL]"
    by (simp only: Suc)
  also have "Replace [] brToken [NL] = []"
    by (simp add: Replace_token_free brToken_facts)
  finally show ?case
    by (simp add: replicate_app_Cons_same)
qed

lemma htmlToText_tokens:
  "htmlToText (a @ concat (replicate (Suc n) brToken) @ b) = htmlToText (a @ brToken @ b)"
proof -
  have "concat (replicate (Suc n) brToken) = concat (replicate n brToken) @ brToken"
    by (induction n) simp_all
  then have "Replace (a @ concat (replicate (Suc n) brToken) @ b) brToken [NL] =
      Replace a brToken [NL] @ replicate (Suc n) NL @ Replace b brToken [NL]"
    using Replace_tokens [of a n b] by simp
  moreover have "Replace (a @ brToken @ b) brToken [NL] =
      Replace a brToken [NL] @ NL # Replace b brToken [NL]"
    by (simp add: Replace_append_token brToken_facts)
  ultimately show ?thesis
    unfolding htmlToText_def Let_def by (simp only: Trim_squeeze_replicate)
qed

lemma htmlToText_ends:
  "htmlToText s = [] \<or> \<not> IsSpace (hd (htmlToText s)) \<and> \<not> IsSpace (last (htmlToText s))"
proof -
  define u where "u = TrimSpace (Replace s brToken [NL])"
  have "u = [] \<or> \<not> IsSpace (hd u) \<and> \<not> IsSpace (last u)"
    unfolding u_def by (rule TrimSpace_ends)
  moreover have "htmlToText s = reLinesReplace u"
    by (simp add: htmlToText_def u_def)
  ultimately show ?thesis
    by (cases "u = []") (simp_all add: reLines_hd reLines_last)
qed

lemma htmlToText_no_token: "\<not> sublist brToken (htmlToText s)"
proof
  assume "sublist brToken (htmlToText s)"
  then have "sublist brToken (TrimSpace (Replace s brToken [NL]))"
    using reLines_sublist [of brToken] by (simp add: htmlToText_def brToken_facts)
  then have "sublist brToken (Replace s brToken [NL])"
    using TrimSpace_sublist sublist_order.order.trans by blast
  then show False
    by (simp add: Replace_no_token brToken_facts)
qed

lemma htmlToText_plain:
  assumes "a \<noteq> []" and "b \<noteq> []" and "\<not> IsSpace (hd a)" and "\<not> IsSpace (last b)"
    and "NL \<notin> set a" and "NL \<notin> set b" and "\<not> sublist brToken a" and "\<not> sublist brToken b"
  shows "htmlToText (a @ brToken @ b) = a @ NL # b"
proof -
  have "Replace (a @ brToken @ b) brToken [NL] = a @ NL # b"
    using assms(7,8) by (simp add: Replace_append_token Replace_token_free brToken_facts)
  moreover have "TrimSpace (a @ NL # b) = a @ NL # b"
    using assms(1-4) by (intro TrimSpace_id) simp
  moreover have "reLinesReplace (a @ NL # b) = a @ NL # b"
  proof -
    from assms(2,6) have "dropWhile (\<lambda>x. x = NL) b = b"
      by (cases b) auto
    with assms(5,6) show ?thesis
      by (simp add: reLines_append_plain reLines_id)
  qed
  ultimately show ?thesis
    by (simp add: htmlToText_def)
qed

lemmas string_eval =
  htmlToText_def Replace.simps [of "_ # _"] Replace.simps [of "[]"] Split.simps [of "_ # _"]
  Split.simps [of "[]"] Index_Cons Index_Nil TrimSpace_def IsSpace_def asc_def brToken_def
  NL_def sublist_Cons_right

text \<open>
  Claim C7. The normalizer is the three steps in this order. The first turns every
  occurrence of the line-break token into a newline and leaves a text without the token
  alone, and no token is left in the result. The result has no white space at either end
  and no two newlines in a row. Any number of tokens in a row count as one token; between
  two plain texts (no token, no newline, no white space at the outer ends) they leave
  exactly one newline.
\<close>

theorem text_normalizer:
  "htmlToText s = reLinesReplace (TrimSpace (Replace s brToken [NL])) \<and>
   Replace (a @ brToken @ b) brToken [NL] =
     Replace a brToken [NL] @ [NL] @ Replace b brToken [NL] \<and>
   (\<not> sublist brToken a \<longrightarrow> Replace a brToken [NL] = a) \<and>
   \<not> sublist brToken (htmlToText s) \<and>
   (htmlToText s \<noteq> [] \<longrightarrow>
      \<not> IsSpace (hd (htmlToText s)) \<and> \<not> IsSpace (last (htmlToText s))) \<and>
   \<not> sublist [NL, NL] (htmlToText s) \<and>
   htmlToText (a @ concat (replicate (Suc n) brToken) @ b) = htmlToText (a @ brToken @ b) \<and>
   (a \<noteq> [] \<and> b \<noteq> [] \<and> \<not> IsSpace (hd a) \<and> \<not> IsSpace (last b) \<and>
    NL \<notin> set a \<and> NL \<notin> set b \<and> \<not> sublist brToken a \<and> \<not> sublist brToken b \<longrightarrow>
      htmlToText (a @ concat (replicate (Suc n) brToken) @ b) = a @ NL # b)"
proof (intro conjI impI)
  show "htmlToText s = reLinesReplace (TrimSpace (Replace s brToken [NL]))"
    by (simp add: htmlToText_def)
  show "Replace (a @ brToken @ b) brToken [NL] =
      Replace a brToken [NL] @ [NL] @ Replace b brToken [NL]"
    by (simp add: Replace_append_token brToken_facts)
  show "Replace a brToken [NL] = a" if "\<not> sublist brToken a"
    using that by (simp add: Replace_token_free brToken_facts)
  show "\<not> sublist brToken (htmlToText s)"
    by (rule htmlToText_no_token)
  show "\<not> IsSpace (hd (htmlToText s))" if "htmlToText s \<noteq> []"
    using that htmlToText_ends [of s] by simp
  show "\<not> IsSpace (last (htmlToText s))" if "htmlToText s \<noteq> []"
    using that htmlToText_ends [of s] by simp
  show "\<not> sublist [NL, NL] (htmlToText s)"
    by (simp add: htmlToText_def reLines_no_run)
  show "htmlToText (a @ concat (replicate (Suc n) brToken) @ b) = htmlToText (a @ brToken @ b)"
    by (rule htmlToText_tokens)
  show "htmlToText (a @ concat (replicate (Suc n) brToken) @ b) = a @ NL # b"
    if "a \<noteq> [] \<and> b \<noteq> [] \<and> \<not> IsSpace (hd a) \<and> \<not> IsSpace (last b) \<and>
      NL \<notin> set a \<and> NL \<notin> set b \<and> \<not> sublist brToken a \<and> \<not> sublist brToken b"
  proof -
    have "htmlToText (a @ brToken @ b) = a @ NL # b"
      using that by (intro htmlToText_plain) simp_all
    then show ?thesis
      by (simp only: htmlToText_tokens)
  qed
qed

theorem text_normalizer_witness:
  "(let s = asc ''  a<br /><br /><br />b <br />''; a = asc ''a''; b = asc ''b''
    in htmlToText s = asc ''a'' @ [NL] @ asc ''b'' \<and> htmlToText s \<noteq> [] \<and>
       \<not> IsSpace (hd (htmlToText s)) \<and> \<not> IsSpace (last (htmlToText s)) \<and>
       \<not> sublist brToken a \<and> Replace a brToken [NL] = a \<and>
       a \<noteq> [] \<and> b \<noteq> [] \<and> \<not> IsSpace (hd a) \<and> \<not> IsSpace (last b) \<and>
       NL \<notin> set a \<and> NL \<notin> set b \<and> \<not> sublist brToken b \<and>
       htmlToText (a @ concat (replicate (Suc 2) brToken) @ b) = a @ NL # b)"
  using text_normalizer [of "asc ''  a<br /><br /><br />b <br />''" "asc ''a''" "asc ''b''" 2]
  by (simp add: string_eval)

section \<open>Properties of the two-report decoder\<close>

lemma TrimSpace_htmlToText: "TrimSpace (htmlToText s) = htmlToText s"
  using htmlToText_ends [of s] by (intro TrimSpace_id) simp

lemma formatParts_concat:
  "concat (formatParts content parts) =
     concat content @
     concat (map (\<lambda>p. p @ [NL]) (map htmlToText (filter (\<lambda>part. part \<noteq> []) parts)))"
  by (induction parts arbitrary: content) (simp_all add: TrimSpace_htmlToText Let_def)

lemma formatRegions_concat:
  "concat (formatRegions content regions) = concat content @ concat (map regionText regions)"
proof (induction regions arbitrary: content)
  case Nil
  then show ?case by simp
next
  case (Cons a regions)
  have "concat (formatRegions content (a # regions)) =
      concat (formatParts content
        [Situation a, Observation a, WindAndSea a, Swell a, Weather a, Visibility a]) @
      concat (map regionText regions)"
    by (simp only: formatRegions.simps Let_def Cons)
  also have "\<dots> = concat content @ regionText a @ concat (map regionText regions)"
    by (simp only: formatParts_concat regionText_def paragraphs_def append_assoc)
  finally show ?case
    by simp
qed

lemma formatEcheances_concat:
  "concat (formatEcheances content echeances) =
     concat content @ concat (map echeanceText echeances)"
proof (induction echeances arbitrary: content)
  case Nil
  then show ?case by simp
next
  case (Cons e echeances)
  then show ?case
    by (simp add: Let_def formatRegions_concat echeanceText_def)
qed

lemma formatReport_two:
  "formatReport [r0, Some r] =
     Inr \<lparr>Id = [], FTitle = Title r,
          Content = Title r @ [NL, NL] @ htmlToText (Header r) @ [NL] @
                    htmlToText (Footer r) @ [NL, NL] @ htmlToText (Special r) @ [NL, NL] @
                    concat (map echeanceText (Echeances r))\<rparr>"
  by (simp add: formatReport_def Let_def formatEcheances_concat)

lemma decimal_nonempty: "decimal n \<noteq> []"
  by (subst decimal.simps) simp

lemma decimal_inj: "decimal n = decimal m \<Longrightarrow> n = m"
proof (induction n arbitrary: m rule: decimal.induct)
  case (1 n)
  show ?case
  proof (cases "n < 10")
    case n: True
    show ?thesis
    proof (cases "m < 10")
      case True
      with n 1(2) show ?thesis
        by (simp add: decimal.simps [of n] decimal.simps [of m])
    next
      case False
      with n 1(2) decimal_nonempty [of "m div 10"] show ?thesis
        by (simp add: decimal.simps [of n] decimal.simps [of m])
    qed
  next
    case n: False
    show ?thesis
    proof (cases "m < 10")
      case True
      with n 1(2) decimal_nonempty [of "n div 10"] show ?thesis
        by (simp add: decimal.simps [of n] decimal.simps [of m])
    next
      case False
      with n 1(2) have "decimal (n div 10) = decimal (m div 10)" and "n mod 10 = m mod 10"
        by (simp_all add: decimal.simps [of n] decimal.simps [of m])
      with 1(1) [OF n] have "n div 10 = m div 10" and "n mod 10 = m mod 10"
        by simp_all
      then show ?thesis
        by (metis div_mult_mod_eq)
    qed
  qed
qed

text \<open>
  Claim C6. A list of reports whose length is not 2 is refused with an error that carries
  the length in decimal (two lengths never print alike); a list of two reports, the second
  one present, is decoded, also when the list of horizons of either report is empty.
\<close>

theorem report_count_checked:
  "(length reports \<noteq> 2 \<longrightarrow>
      formatReport reports =
        Inl (Errorf (asc ''2 reports expected, go '' @ decimal (length reports)))) \<and>
   (length reports = 2 \<and> reports ! 1 = Some r \<longrightarrow>
      (\<exists>forecast. formatReport reports = Inr forecast)) \<and>
   (Echeances r = [] \<longrightarrow>
      formatReport [r0, Some r] =
        Inr \<lparr>Id = [], FTitle = Title r,
             Content = Title r @ [NL, NL] @ htmlToText (Header r) @ [NL] @
                       htmlToText (Footer r) @ [NL, NL] @ htmlToText (Special r) @ [NL, NL]\<rparr>) \<and>
   (decimal n = decimal m \<longrightarrow> n = m)"
proof (intro conjI impI)
  show "formatReport reports =
      Inl (Errorf (asc ''2 reports expected, go '' @ decimal (length reports)))"
    if "length reports \<noteq> 2"
    using that by (simp add: formatReport_def)
  show "\<exists>forecast. formatReport reports = Inr forecast"
    if "length reports = 2 \<and> reports ! 1 = Some r"
    using that by (simp add: formatReport_def Let_def)
  show "formatReport [r0, Some r] =
      Inr \<lparr>Id = [], FTitle = Title r,
           Content = Title r @ [NL, NL] @ htmlToText (Header r) @ [NL] @
                     htmlToText (Footer r) @ [NL, NL] @ htmlToText (Special r) @ [NL, NL]\<rparr>"
    if "Echeances r = []"
    using that by (simp add: formatReport_two)
  show "n = m" if "decimal n = decimal m"
    using that by (rule decimal_inj)
qed

theorem report_count_checked_witness:
  "(let one = [Some \<lparr>Title = asc ''Large'', Special = [], Header = [], Footer = [],
                      Units = [], Echeances = []\<rparr>];
        three = [None, None, None];
        r = \<lparr>Title = asc ''Cote'', Special = asc ''Neant'', Header = asc ''  A<br />'',
              Footer = asc ''B'', Units = [], Echeances = []\<rparr>;
        two = [Some \<lparr>Title = asc ''Large'', Special = [], Header = [], Footer = [],
                      Units = [], Echeances = []\<rparr>, Some r]
    in length one \<noteq> 2 \<and>
       formatReport one = Inl (Errorf (asc ''2 reports expected, go 1'')) \<and>
       length three \<noteq> 2 \<and>
       formatReport three = Inl (Errorf (asc ''2 reports expected, go 3'')) \<and>
       length two = 2 \<and> two ! 1 = Some r \<and> Echeances r = [] \<and>
       formatReport two =
         Inr \<lparr>Id = [], FTitle = asc ''Cote'',
              Content = asc ''Cote'' @ [NL, NL] @ asc ''A'' @ [NL] @ asc ''B'' @ [NL, NL] @
                        asc ''Neant'' @ [NL, NL]\<rparr> \<and>
       decimal 1 = decimal 1)"
  using report_count_checked
      [of "[Some \<lparr>Title = asc ''Large'', Special = [], Header = [], Footer = [],
                    Units = [], Echeances = []\<rparr>]"
          "\<lparr>Title = asc ''Cote'', Special = asc ''Neant'', Header = asc ''  A<br />'',
              Footer = asc ''B'', Units = [], Echeances = []\<rparr>"
          "Some \<lparr>Title = asc ''Large'', Special = [], Header = [], Footer = [],
                    Units = [], Echeances = []\<rparr>" 1 1]
    report_count_checked
      [of "[None, None, None]"
          "\<lparr>Title = asc ''Cote'', Special = asc ''Neant'', Header = asc ''  A<br />'',
              Footer = asc ''B'', Units = [], Echeances = []\<rparr>"
          "Some \<lparr>Title = asc ''Large'', Special = [], Header = [], Footer = [],
                    Units = [], Echeances = []\<rparr>" 3 3]
  by (simp add: string_eval decimal.simps [of "Suc 0"] decimal.simps [of "Suc (Suc (Suc 0))"])


text \<open>
  Claim C1, as amended. For two reports, the second one present, the content is the title
  and the normalized header, footer and special notice, then each horizon; a region gives
  its fields that are not the empty string in the order situation, observation, wind and
  sea (never split here), swell, weather, visibility, each as its normalized text and a
  newline; a field that is the empty string gives nothing.
\<close>

theorem region_field_order:
  "formatReport [r0, Some r] =
     Inr \<lparr>Id = [], FTitle = Title r,
          Content = Title r @ [NL, NL] @ htmlToText (Header r) @ [NL] @
                    htmlToText (Footer r) @ [NL, NL] @ htmlToText (Special r) @ [NL, NL] @
                    concat (map echeanceText (Echeances r))\<rparr> \<and>
   echeanceText e =
     asc ''# '' @ ETitle e @ [NL, NL] @ concat (map regionText (Regions e)) @ [NL, NL] \<and>
   regionText a = concat (map (\<lambda>p. p @ [NL]) (paragraphs a)) \<and>
   paragraphs a =
     map htmlToText
       (filter (\<lambda>part. part \<noteq> [])
          [Situation a, Observation a, WindAndSea a, Swell a, Weather a, Visibility a]) \<and>
   (\<forall>p\<in>set (paragraphs a).
      \<not> sublist [NL, NL] p \<and> \<not> sublist brToken p \<and>
      (p \<noteq> [] \<longrightarrow> \<not> IsSpace (hd p) \<and> \<not> IsSpace (last p)))"
proof (intro conjI ballI)
  show "formatReport [r0, Some r] =
     Inr \<lparr>Id = [], FTitle = Title r,
          Content = Title r @ [NL, NL] @ htmlToText (Header r) @ [NL] @
                    htmlToText (Footer r) @ [NL, NL] @ htmlToText (Special r) @ [NL, NL] @
                    concat (map echeanceText (Echeances r))\<rparr>"
    by (rule formatReport_two)
  show "echeanceText e =
      asc ''# '' @ ETitle e @ [NL, NL] @ concat (map regionText (Regions e)) @ [NL, NL]"
    by (rule echeanceText_def)
  show "regionText a = concat (map (\<lambda>p. p @ [NL]) (paragraphs a))"
    by (rule regionText_def)
  show "paragraphs a =
      map htmlToText
        (filter (\<lambda>part. part \<noteq> [])
           [Situation a, Observation a, WindAndSea a, Swell a, Weather a, Visibility a])"
    by (rule paragraphs_def)
next
  fix p
  assume "p \<in> set (paragraphs a)"
  then obtain s where p: "p = htmlToText s"
    unfolding paragraphs_def by (auto simp only: set_map)
  show "\<not> sublist [NL, NL] p"
    unfolding p by (simp add: htmlToText_def reLines_no_run)
  show "\<not> sublist brToken p"
    unfolding p by (rule htmlToText_no_token)
  show "p \<noteq> [] \<longrightarrow> \<not> IsSpace (hd p) \<and> \<not> IsSpace (last p)"
    unfolding p using htmlToText_ends [of s] by blast
qed

theorem region_field_order_witness:
  "(let a = \<lparr>RTitle = [], Situation = asc ''S<br /><br />s'', Observation = [],
              WindAndSea = asc ''N MER : belle'', Swell = [], Weather = asc ''W'',
              Visibility = asc ''V''\<rparr>;
        p = asc ''S'' @ [NL] @ asc ''s''
    in paragraphs a = [p, asc ''N MER : belle'', asc ''W'', asc ''V''] \<and>
       p \<in> set (paragraphs a) \<and> p \<noteq> [] \<and> \<not> sublist [NL, NL] p \<and>
       \<not> IsSpace (hd p) \<and> \<not> IsSpace (last p) \<and>
       regionText a =
         asc ''S'' @ [NL] @ asc ''s'' @ [NL] @ asc ''N MER : belle'' @ [NL] @ asc ''W'' @ [NL] @
         asc ''V'' @ [NL])"
  using region_field_order
    [of _ _ _ "\<lparr>RTitle = [], Situation = asc ''S<br /><br />s'', Observation = [],
              WindAndSea = asc ''N MER : belle'', Swell = [], Weather = asc ''W'',
              Visibility = asc ''V''\<rparr>"]
  by (simp add: string_eval)

text \<open>
  The claim as stated puts visibility before the last field and has no blank line for a
  blank field. A region with weather W, visibility V and a swell of one space: W comes
  before V, and the swell leaves an empty line.
\<close>

theorem region_field_order_counterexample:
  "formatReport
     [None,
      Some \<lparr>Title = asc ''T'', Special = [], Header = [], Footer = [], Units = [],
            Echeances =
              [\<lparr>ETitle = asc ''E'', Kind = [],
                Regions =
                  [\<lparr>RTitle = [], Situation = asc ''S'', Observation = [], WindAndSea = [],
                    Swell = asc '' '', Weather = asc ''W'', Visibility = asc ''V''\<rparr>]\<rparr>]\<rparr>] =
   Inr \<lparr>Id = [], FTitle = asc ''T'',
        Content = asc ''T'' @ [NL, NL, NL, NL, NL, NL, NL] @ asc ''# E'' @ [NL, NL] @
                  asc ''S'' @ [NL] @ [NL] @ asc ''W'' @ [NL] @ asc ''V'' @ [NL] @ [NL, NL]\<rparr>"
  by (simp add: formatReport_def string_eval)

section \<open>Properties of the gale timeline\<close>

lemma fill_length: "length (fill num ws) = length ws"
  by (induction ws arbitrary: num) auto

lemma fill_Date: "map Date (fill num ws) = map Date ws"
  by (induction ws arbitrary: num) auto

lemma fill_Number_nth:
  "i < length ws \<Longrightarrow>
     Number (fill num ws ! i) = last (num # filter (\<lambda>n. n \<noteq> 0) (map Number (take (Suc i) ws)))"
proof (induction ws arbitrary: num i)
  case Nil
  then show ?case by simp
next
  case (Cons w ws)
  show ?case
  proof (cases i)
    case 0
    then show ?thesis by simp
  next
    case (Suc j)
    with Cons.prems have "j < length ws" by simp
    from Cons.IH [OF this] Suc show ?thesis by simp
  qed
qed

lemma fill_keep_nth: "i < length ws \<Longrightarrow> Number (ws ! i) \<noteq> 0 \<Longrightarrow> fill num ws ! i = ws ! i"
proof (induction ws arbitrary: num i)
  case Nil
  then show ?case by simp
next
  case (Cons w ws)
  then show ?case by (cases i) auto
qed

lemma fill_zero_nth:
  "i < length ws \<Longrightarrow> Number (ws ! i) = 0 \<Longrightarrow>
     fill num ws ! i = (ws ! i)\<lparr>Number := last (num # filter (\<lambda>n. n \<noteq> 0) (map Number (take i ws)))\<rparr>"
proof (induction ws arbitrary: num i)
  case Nil
  then show ?case by simp
next
  case (Cons w ws)
  then show ?case by (cases i) auto
qed

lemma sortPost_sorted: "sortPost xs ys \<Longrightarrow> sorted (map Date ys)"
  by (simp add: sortPost_def Less_def sorted_wrt_map not_less)

lemma sortPost_dates: "sortPost xs ys \<Longrightarrow> map Date ys = sort (map Date xs)"
proof -
  assume a: "sortPost xs ys"
  then have "mset (map Date ys) = mset (map Date xs)"
    by (simp add: sortPost_def)
  with sortPost_sorted [OF a] show ?thesis
    using properties_for_sort [of "map Date ys" "map Date xs"] by simp
qed

lemma sortPost_Nil: "sortPost [] ys \<Longrightarrow> ys = []"
  by (simp add: sortPost_def)

lemma walkFn_append: "walkFn ws v = (ws @ fst (walkFn [] v), snd (walkFn [] v))"
  by (simp add: walkFn_def split: option.splits sum.splits)

lemma Walk_no_error:
  "\<forall>v\<in>set dir. snd (walkFn [] v) = None \<Longrightarrow>
     Walk ws dir = (ws @ concat (map (\<lambda>v. fst (walkFn [] v)) dir), None)"
proof (induction dir arbitrary: ws)
  case Nil
  then show ?case by simp
next
  case (Cons v vs)
  then have "walkFn ws v = (ws @ fst (walkFn [] v), None)"
    using walkFn_append [of ws v] by simp
  with Cons show ?case by simp
qed

lemma Walk_error_free: "snd (Walk ws dir) = None \<Longrightarrow> \<forall>v\<in>set dir. snd (walkFn [] v) = None"
proof (induction dir arbitrary: ws)
  case Nil
  then show ?case by simp
next
  case (Cons v vs)
  show ?case
  proof (cases "snd (walkFn [] v)")
    case None
    then have "walkFn ws v = (ws @ fst (walkFn [] v), None)"
      using walkFn_append [of ws v] by simp
    with Cons None show ?thesis by simp
  next
    case (Some err)
    then have "walkFn ws v = (ws @ fst (walkFn [] v), Some err)"
      using walkFn_append [of ws v] by simp
    with Cons.prems show ?thesis by simp
  qed
qed

lemma mset_concat_map: "mset (concat (map f xs)) = (\<Sum>x\<in>#mset xs. mset (f x))"
  by (induction xs) auto

lemma Walk_mset:
  assumes "mset dir' = mset dir" and "snd (Walk [] dir) = None"
  shows "snd (Walk [] dir') = None" and "mset (fst (Walk [] dir')) = mset (fst (Walk [] dir))"
proof -
  from assms(2) have ok: "\<forall>v\<in>set dir. snd (walkFn [] v) = None"
    by (rule Walk_error_free)
  from assms(1) have "set dir' = set dir"
    by (rule mset_eq_setD)
  with ok have ok': "\<forall>v\<in>set dir'. snd (walkFn [] v) = None"
    by simp
  show "snd (Walk [] dir') = None"
    by (simp add: Walk_no_error [OF ok'])
  show "mset (fst (Walk [] dir')) = mset (fst (Walk [] dir))"
    by (simp add: Walk_no_error [OF ok'] Walk_no_error [OF ok] mset_concat_map assms(1))
qed

lemma sortPost_distinct:
  assumes "sortPost xs ys" and "distinct (map Date xs)"
  shows "ys = sort_key Date xs"
proof (rule map_sorted_distinct_set_unique [where f = Date])
  from assms(1) have m: "mset ys = mset xs"
    by (simp add: sortPost_def)
  then have s: "set ys = set xs"
    by (rule mset_eq_setD)
  from assms(2) have "inj_on Date (set xs)"
    by (simp add: distinct_map)
  with s show "inj_on Date (set ys \<union> set (sort_key Date xs))"
    by simp
  show "sorted (map Date ys)"
    using assms(1) by (rule sortPost_sorted)
  from m have "mset (map Date ys) = mset (map Date xs)"
    by simp
  with assms(2) show "distinct (map Date ys)"
    by (metis mset_eq_imp_distinct_iff)
  show "sorted (map Date (sort_key Date xs))"
    by simp
  from assms(2) show "distinct (map Date (sort_key Date xs))"
    by (metis distinct_sort mset_eq_imp_distinct_iff mset_map mset_sort)
  from s show "set ys = set (sort_key Date xs)"
    by simp
qed

lemma Walk_snapshot [simp]: "walkFn ws (snapshot d n) = (ws @ [\<lparr>Number = n, Date = d\<rparr>], None)"
  by (simp add: walkFn_def snapshot_def)

lemmas small_sort_eval =
  sortUpTo12_def shellPass_def insertionSort_def Swap_def Less_def upt_rec [of 1] upt_rec [of 2]
  upt_rec [of 3] upt_rec [of 4] upt_rec [of 5] upt_rec [of 6] upt_rec [of 7] numeral_nat

text \<open>
  Claim C2. After the sort, the loop carries a running number that starts at 1: the entry
  at position \<open>i\<close> leaves with the last non-zero number among the entries up to and
  including \<open>i\<close>, and with 1 when there is none; an entry that came with 0 is the same
  entry with the running number of the entries before it. The numbers read from files
  are never negative, so non-zero is positive. Snapshots stamped 2016-01-01 (number 0),
  2016-01-10 (number 36) and 2016-01-15 (number 0), the instants counted in seconds from
  1970, give the numbers 1, 36, 36, whatever sort of the library's contract is used.
\<close>

theorem gap_fill_running_number:
  "(\<forall>i<length ws.
      Number (fill 1 ws ! i) = last (1 # filter (\<lambda>n. n \<noteq> 0) (map Number (take (Suc i) ws)))) \<and>
   (\<forall>i<length ws. Number (ws ! i) = 0 \<longrightarrow>
      fill 1 ws ! i = (ws ! i)\<lparr>Number := last (1 # filter (\<lambda>n. n \<noteq> 0) (map Number (take i ws)))\<rparr>) \<and>
   (let dir = [snapshot 1451606400 0, snapshot 1452384000 36, snapshot 1452816000 0]
    in sortPost (fst (Walk [] dir)) (Sort (fst (Walk [] dir))) \<longrightarrow>
       extractWarningNumbers Sort dir =
         ([\<lparr>Number = 1, Date = 1451606400\<rparr>, \<lparr>Number = 36, Date = 1452384000\<rparr>,
           \<lparr>Number = 36, Date = 1452816000\<rparr>], None))"
proof (intro conjI)
  show "\<forall>i<length ws.
      Number (fill 1 ws ! i) = last (1 # filter (\<lambda>n. n \<noteq> 0) (map Number (take (Suc i) ws)))"
    using fill_Number_nth [of _ ws 1] by blast
  show "\<forall>i<length ws. Number (ws ! i) = 0 \<longrightarrow>
      fill 1 ws ! i = (ws ! i)\<lparr>Number := last (1 # filter (\<lambda>n. n \<noteq> 0) (map Number (take i ws)))\<rparr>"
    using fill_zero_nth [of _ ws 1] by blast
  let ?ws = "[\<lparr>Number = 0, Date = 1451606400\<rparr>, \<lparr>Number = 36, Date = 1452384000\<rparr>,
              \<lparr>Number = 0, Date = 1452816000\<rparr>]"
  have "sortPost ?ws (Sort ?ws) \<longrightarrow> fill 1 (Sort ?ws) =
      [\<lparr>Number = 1, Date = 1451606400\<rparr>, \<lparr>Number = 36, Date = 1452384000\<rparr>,
       \<lparr>Number = 36, Date = 1452816000\<rparr>]"
  proof
    assume "sortPost ?ws (Sort ?ws)"
    then have "Sort ?ws = sort_key Date ?ws"
      by (rule sortPost_distinct) simp
    then show "fill 1 (Sort ?ws) =
      [\<lparr>Number = 1, Date = 1451606400\<rparr>, \<lparr>Number = 36, Date = 1452384000\<rparr>,
       \<lparr>Number = 36, Date = 1452816000\<rparr>]"
      by simp
  qed
  then show "let dir = [snapshot 1451606400 0, snapshot 1452384000 36, snapshot 1452816000 0]
    in sortPost (fst (Walk [] dir)) (Sort (fst (Walk [] dir))) \<longrightarrow>
       extractWarningNumbers Sort dir =
         ([\<lparr>Number = 1, Date = 1451606400\<rparr>, \<lparr>Number = 36, Date = 1452384000\<rparr>,
           \<lparr>Number = 36, Date = 1452816000\<rparr>], None)"
    by (simp add: extractWarningNumbers_def)
qed

theorem gap_fill_running_number_witness:
  "(let ws = [\<lparr>Number = 0, Date = 10\<rparr>, \<lparr>Number = 36, Date = 20\<rparr>, \<lparr>Number = 0, Date = 30\<rparr>,
              \<lparr>Number = 37, Date = 40\<rparr>, \<lparr>Number = 0, Date = 50\<rparr>]
    in (2::nat) < length ws \<and> Number (ws ! 2) = 0 \<and> Number (fill 1 ws ! 2) = 36 \<and>
       fill 1 ws ! 2 = \<lparr>Number = 36, Date = 30\<rparr>) \<and>
   (let dir = [snapshot 1451606400 0, snapshot 1452384000 36, snapshot 1452816000 0]
    in sortPost (fst (Walk [] dir)) (sortUpTo12 (fst (Walk [] dir))) \<and>
       map Number (fst (extractWarningNumbers sortUpTo12 dir)) = [1, 36, 36])"
  using gap_fill_running_number
    [of "[\<lparr>Number = 0, Date = 10\<rparr>, \<lparr>Number = 36, Date = 20\<rparr>, \<lparr>Number = 0, Date = 30\<rparr>,
          \<lparr>Number = 37, Date = 40\<rparr>, \<lparr>Number = 0, Date = 50\<rparr>]" sortUpTo12]
  by (simp add: small_sort_eval sortPost_def)

text \<open>
  Claim C9. Filling the gaps keeps the length of the sequence, the date at every position
  (hence the order of the entries) and every entry whose number is not 0; an entry whose
  number is 0 changes in its number only. The extraction returns the filled, sorted walk.
\<close>

theorem gap_fill_frame:
  "length (fill 1 ws) = length ws \<and>
   map Date (fill 1 ws) = map Date ws \<and>
   (\<forall>i<length ws. Number (ws ! i) \<noteq> 0 \<longrightarrow> fill 1 ws ! i = ws ! i) \<and>
   (\<forall>i<length ws. Number (ws ! i) = 0 \<longrightarrow> (\<exists>n. fill 1 ws ! i = (ws ! i)\<lparr>Number := n\<rparr>)) \<and>
   fst (extractWarningNumbers Sort dir) = fill 1 (Sort (fst (Walk [] dir)))"
proof (intro conjI)
  show "length (fill 1 ws) = length ws"
    by (rule fill_length)
  show "map Date (fill 1 ws) = map Date ws"
    by (rule fill_Date)
  show "\<forall>i<length ws. Number (ws ! i) \<noteq> 0 \<longrightarrow> fill 1 ws ! i = ws ! i"
    by (simp add: fill_keep_nth)
  show "\<forall>i<length ws. Number (ws ! i) = 0 \<longrightarrow> (\<exists>n. fill 1 ws ! i = (ws ! i)\<lparr>Number := n\<rparr>)"
    using fill_zero_nth [of _ ws 1] by blast
  show "fst (extractWarningNumbers Sort dir) = fill 1 (Sort (fst (Walk [] dir)))"
    by (simp add: extractWarningNumbers_def split: prod.splits)
qed

theorem gap_fill_frame_witness:
  "(let ws = [\<lparr>Number = 0, Date = 10\<rparr>, \<lparr>Number = 36, Date = 20\<rparr>, \<lparr>Number = 0, Date = 30\<rparr>]
    in (1::nat) < length ws \<and> Number (ws ! 1) \<noteq> 0 \<and> fill 1 ws ! 1 = ws ! 1 \<and>
       (2::nat) < length ws \<and> Number (ws ! 2) = 0 \<and> (\<exists>n. fill 1 ws ! 2 = (ws ! 2)\<lparr>Number := n\<rparr>) \<and>
       map Date (fill 1 ws) = [10, 20, 30])"
  using gap_fill_frame
    [of "[\<lparr>Number = 0, Date = 10\<rparr>, \<lparr>Number = 36, Date = 20\<rparr>, \<lparr>Number = 0, Date = 30\<rparr>]"]
  by simp

lemma virtualPoints_Cons:
  "virtualPoints now jan1 (w # ws) =
     (if jan1 < Date w then [\<lparr>Number = 0, Date = jan1\<rparr>] else []) @ (w # ws) @
     [\<lparr>Number = Number (last (w # ws)), Date = now\<rparr>]"
  by (simp add: virtualPoints_def Let_def last_conv_nth)

lemma virtualPoints_Nil:
  "virtualPoints now jan1 [] = [\<lparr>Number = 0, Date = jan1\<rparr>, \<lparr>Number = 0, Date = now\<rparr>]"
  by (simp add: virtualPoints_def)

lemma virtualPoints_last:
  "virtualPoints now jan1 ws \<noteq> [] \<and> Date (last (virtualPoints now jan1 ws)) = now"
  by (cases ws) (simp_all add: virtualPoints_Nil virtualPoints_Cons)

text \<open>
  Claim C5. When the first entry of the extracted timeline is dated after January 1st of
  the current year, the series starts with an entry dated January 1st whose number is 0,
  and in every case it ends with an entry dated now that carries the number of the last
  entry; the series that is rendered is the timeline with these points.
\<close>

theorem boundary_points:
  "(ws \<noteq> [] \<and> jan1 < Date (hd ws) \<longrightarrow>
      virtualPoints now jan1 ws =
        \<lparr>Number = 0, Date = jan1\<rparr> # ws @ [\<lparr>Number = Number (last ws), Date = now\<rparr>]) \<and>
   (ws \<noteq> [] \<and> \<not> jan1 < Date (hd ws) \<longrightarrow>
      virtualPoints now jan1 ws = ws @ [\<lparr>Number = Number (last ws), Date = now\<rparr>]) \<and>
   (extractWarningNumbers Sort dir = (ws, None) \<longrightarrow>
      serveGaleWarnings T Sort dir =
        Inr (map (offsetOf T) (virtualPoints (Now T) (Jan1 T (Now T)) ws),
             map (refOf T) (virtualPoints (Now T) (Jan1 T (Now T)) ws)))"
proof (intro conjI impI)
  assume "ws \<noteq> [] \<and> jan1 < Date (hd ws)"
  then show "virtualPoints now jan1 ws =
      \<lparr>Number = 0, Date = jan1\<rparr> # ws @ [\<lparr>Number = Number (last ws), Date = now\<rparr>]"
    by (cases ws) (simp_all add: virtualPoints_Cons)
next
  assume "ws \<noteq> [] \<and> \<not> jan1 < Date (hd ws)"
  then show "virtualPoints now jan1 ws = ws @ [\<lparr>Number = Number (last ws), Date = now\<rparr>]"
    by (cases ws) (simp_all add: virtualPoints_Cons)
next
  assume "extractWarningNumbers Sort dir = (ws, None)"
  then show "serveGaleWarnings T Sort dir =
      Inr (map (offsetOf T) (virtualPoints (Now T) (Jan1 T (Now T)) ws),
           map (refOf T) (virtualPoints (Now T) (Jan1 T (Now T)) ws))"
    by (simp add: serveGaleWarnings_def Let_def)
qed

theorem boundary_points_witness:
  "(let ws = [\<lparr>Number = 36, Date = 1452384000\<rparr>]
    in ws \<noteq> [] \<and> (1451606400::int) < Date (hd ws) \<and>
       virtualPoints 1453000000 1451606400 ws =
         [\<lparr>Number = 0, Date = 1451606400\<rparr>, \<lparr>Number = 36, Date = 1452384000\<rparr>,
          \<lparr>Number = 36, Date = 1453000000\<rparr>]) \<and>
   (let ws = [\<lparr>Number = 12, Date = 1451606400\<rparr>, \<lparr>Number = 13, Date = 1452384000\<rparr>]
    in ws \<noteq> [] \<and> \<not> (1451606400::int) < Date (hd ws) \<and>
       virtualPoints 1453000000 1451606400 ws =
         [\<lparr>Number = 12, Date = 1451606400\<rparr>, \<lparr>Number = 13, Date = 1452384000\<rparr>,
          \<lparr>Number = 13, Date = 1453000000\<rparr>]) \<and>
   (let T = \<lparr>Now = 1453000000, Jan1 = (\<lambda>t. 1451606400), DeltaDays = (\<lambda>a b. (a - b) div 86400),
              float64 = (\<lambda>n. n), Format = (\<lambda>t. []),
              YearDay = (\<lambda>t. (t - 1451606400) div 86400 + 1), Date2016 = 1451606400\<rparr>;
        dir = [snapshot 1452384000 36]
    in extractWarningNumbers sortUpTo12 dir = ([\<lparr>Number = 36, Date = 1452384000\<rparr>], None) \<and>
       serveGaleWarnings T sortUpTo12 dir =
         Inr ([\<lparr>X = 0, Y = 0, DateText = [], YearDayNo = 1\<rparr>,
               \<lparr>X = 9, Y = 36, DateText = [], YearDayNo = 10\<rparr>,
               \<lparr>X = 16, Y = 36, DateText = [], YearDayNo = 17\<rparr>],
              [\<lparr>X = 0, Y = 1, DateText = [], YearDayNo = 1\<rparr>,
               \<lparr>X = 9, Y = 10, DateText = [], YearDayNo = 10\<rparr>,
               \<lparr>X = 16, Y = 17, DateText = [], YearDayNo = 17\<rparr>]))"
  using boundary_points
      [of "[\<lparr>Number = 36, Date = 1452384000\<rparr>]" 1451606400 1453000000 sortUpTo12
          "[snapshot 1452384000 36]"
          "\<lparr>Now = 1453000000, Jan1 = (\<lambda>t. 1451606400), DeltaDays = (\<lambda>a b. (a - b) div 86400),
              float64 = (\<lambda>n. n), Format = (\<lambda>t. []),
              YearDay = (\<lambda>t. (t - 1451606400) div 86400 + 1), Date2016 = 1451606400\<rparr>"]
    boundary_points
      [of "[\<lparr>Number = 12, Date = 1451606400\<rparr>, \<lparr>Number = 13, Date = 1452384000\<rparr>]"
          1451606400 1453000000]
  by (simp add: extractWarningNumbers_def sortUpTo12_def virtualPoints_Cons offsetOf_def refOf_def)

lemma walkFn_skipped:
  "walkErr v = None \<and> (\<not> isRegular v \<or> stamp v = None) \<Longrightarrow> walkFn [] v = ([], None)"
  by (auto simp: walkFn_def)

lemma Walk_skipped:
  assumes "\<forall>v\<in>set dir. walkErr v = None \<and> (\<not> isRegular v \<or> stamp v = None)"
  shows "Walk [] dir = ([], None)"
proof -
  from assms have "\<forall>v\<in>set dir. walkFn [] v = ([], None)"
    by (simp add: walkFn_skipped)
  then have "\<forall>v\<in>set dir. snd (walkFn [] v) = None" and "\<forall>v\<in>set dir. fst (walkFn [] v) = []"
    by simp_all
  then show ?thesis
    by (simp add: Walk_no_error)
qed

lemma serveGaleWarnings_Inr:
  assumes "serveGaleWarnings T Sort dir = Inr (offsets, refs)"
  obtains ws where "offsets = map (offsetOf T) (virtualPoints (Now T) (Jan1 T (Now T)) ws)"
    and "refs = map (refOf T) (virtualPoints (Now T) (Jan1 T (Now T)) ws)"
  using assms
  by (auto simp: serveGaleWarnings_def Let_def split: prod.splits option.splits)

text \<open>
  Claim C8. When the walk meets no file whose name matches the pattern, the page still has
  two points: the anchor dated January 1st of the current year with number 0, then the
  point dated now, with number 0 too. Whenever the page is served, the series is not
  empty and its last point is the one dated now.
\<close>

theorem series_never_empty:
  "((\<forall>v\<in>set dir. walkErr v = None \<and> (\<not> isRegular v \<or> stamp v = None)) \<and>
    sortPost (fst (Walk [] dir)) (Sort (fst (Walk [] dir))) \<longrightarrow>
      serveGaleWarnings T Sort dir =
        Inr ([offsetOf T \<lparr>Number = 0, Date = Jan1 T (Now T)\<rparr>,
              offsetOf T \<lparr>Number = 0, Date = Now T\<rparr>],
             [refOf T \<lparr>Number = 0, Date = Jan1 T (Now T)\<rparr>,
              refOf T \<lparr>Number = 0, Date = Now T\<rparr>])) \<and>
   (serveGaleWarnings T Sort dir' = Inr (offsets, refs) \<longrightarrow>
      offsets \<noteq> [] \<and> length refs = length offsets \<and>
      (\<exists>n. last offsets = offsetOf T \<lparr>Number = n, Date = Now T\<rparr> \<and>
           last refs = refOf T \<lparr>Number = n, Date = Now T\<rparr>))"
proof (rule conjI; rule impI)
  assume a: "(\<forall>v\<in>set dir. walkErr v = None \<and> (\<not> isRegular v \<or> stamp v = None)) \<and>
    sortPost (fst (Walk [] dir)) (Sort (fst (Walk [] dir)))"
  then have w: "Walk [] dir = ([], None)"
    by (simp add: Walk_skipped)
  with a have "Sort [] = []"
    by (simp add: sortPost_Nil)
  with w show "serveGaleWarnings T Sort dir =
        Inr ([offsetOf T \<lparr>Number = 0, Date = Jan1 T (Now T)\<rparr>,
              offsetOf T \<lparr>Number = 0, Date = Now T\<rparr>],
             [refOf T \<lparr>Number = 0, Date = Jan1 T (Now T)\<rparr>,
              refOf T \<lparr>Number = 0, Date = Now T\<rparr>])"
    by (simp add: serveGaleWarnings_def extractWarningNumbers_def virtualPoints_Nil Let_def)
next
  assume "serveGaleWarnings T Sort dir' = Inr (offsets, refs)"
  then obtain ws where o: "offsets = map (offsetOf T) (virtualPoints (Now T) (Jan1 T (Now T)) ws)"
    and r: "refs = map (refOf T) (virtualPoints (Now T) (Jan1 T (Now T)) ws)"
    by (rule serveGaleWarnings_Inr)
  let ?vs = "virtualPoints (Now T) (Jan1 T (Now T)) ws"
  have ne: "?vs \<noteq> []" and d: "Date (last ?vs) = Now T"
    using virtualPoints_last [of "Now T" "Jan1 T (Now T)" ws] by simp_all
  from d have "last ?vs = \<lparr>Number = Number (last ?vs), Date = Now T\<rparr>"
    by (cases "last ?vs") simp
  with ne o r have "last offsets = offsetOf T \<lparr>Number = Number (last ?vs), Date = Now T\<rparr> \<and>
      last refs = refOf T \<lparr>Number = Number (last ?vs), Date = Now T\<rparr>"
    by (simp add: last_map)
  with ne o r show "offsets \<noteq> [] \<and> length refs = length offsets \<and>
      (\<exists>n. last offsets = offsetOf T \<lparr>Number = n, Date = Now T\<rparr> \<and>
           last refs = refOf T \<lparr>Number = n, Date = Now T\<rparr>)"
    by auto
qed


theorem series_never_empty_witness:
  "(let T = \<lparr>Now = 1453000000, Jan1 = (\<lambda>t. 1451606400), DeltaDays = (\<lambda>a b. (a - b) div 86400),
              float64 = (\<lambda>n. n), Format = (\<lambda>t. []),
              YearDay = (\<lambda>t. (t - 1451606400) div 86400 + 1), Date2016 = 1451606400\<rparr>;
        dir = [\<lparr>walkErr = None, isRegular = False, stamp = None, fileNumber = Inr 0\<rparr>,
               \<lparr>walkErr = None, isRegular = True, stamp = None, fileNumber = Inr 0\<rparr>]
    in list_all (\<lambda>v. walkErr v = None \<and> (\<not> isRegular v \<or> stamp v = None)) dir \<and>
       sortPost (fst (Walk [] dir)) (sortUpTo12 (fst (Walk [] dir))) \<and>
       serveGaleWarnings T sortUpTo12 dir =
         Inr ([\<lparr>X = 0, Y = 0, DateText = [], YearDayNo = 1\<rparr>,
               \<lparr>X = 16, Y = 0, DateText = [], YearDayNo = 17\<rparr>],
              [\<lparr>X = 0, Y = 1, DateText = [], YearDayNo = 1\<rparr>,
               \<lparr>X = 16, Y = 17, DateText = [], YearDayNo = 17\<rparr>])) \<and>
   (let T = \<lparr>Now = 1453000000, Jan1 = (\<lambda>t. 1451606400), DeltaDays = (\<lambda>a b. (a - b) div 86400),
              float64 = (\<lambda>n. n), Format = (\<lambda>t. []),
              YearDay = (\<lambda>t. (t - 1451606400) div 86400 + 1), Date2016 = 1451606400\<rparr>;
        dir' = [snapshot 1452384000 36];
        offsets = [\<lparr>X = 0, Y = 0, DateText = [], YearDayNo = 1\<rparr>,
                   \<lparr>X = 9, Y = 36, DateText = [], YearDayNo = 10\<rparr>,
                   \<lparr>X = 16, Y = 36, DateText = [], YearDayNo = 17\<rparr>];
        refs = [\<lparr>X = 0, Y = 1, DateText = [], YearDayNo = 1\<rparr>,
                \<lparr>X = 9, Y = 10, DateText = [], YearDayNo = 10\<rparr>,
                \<lparr>X = 16, Y = 17, DateText = [], YearDayNo = 17\<rparr>]
    in serveGaleWarnings T sortUpTo12 dir' = Inr (offsets, refs) \<and>
       offsets \<noteq> [] \<and> length refs = length offsets \<and>
       last offsets = offsetOf T \<lparr>Number = 36, Date = Now T\<rparr>)"
  using series_never_empty
      [of "[\<lparr>walkErr = None, isRegular = False, stamp = None, fileNumber = Inr 0\<rparr>,
            \<lparr>walkErr = None, isRegular = True, stamp = None, fileNumber = Inr 0\<rparr>]"
          sortUpTo12
          "\<lparr>Now = 1453000000, Jan1 = (\<lambda>t. 1451606400), DeltaDays = (\<lambda>a b. (a - b) div 86400),
              float64 = (\<lambda>n. n), Format = (\<lambda>t. []),
              YearDay = (\<lambda>t. (t - 1451606400) div 86400 + 1), Date2016 = 1451606400\<rparr>"
          "[snapshot 1452384000 36]"
          "[\<lparr>X = 0, Y = 0, DateText = [], YearDayNo = 1\<rparr>,
            \<lparr>X = 9, Y = 36, DateText = [], YearDayNo = 10\<rparr>,
            \<lparr>X = 16, Y = 36, DateText = [], YearDayNo = 17\<rparr>]"
          "[\<lparr>X = 0, Y = 1, DateText = [], YearDayNo = 1\<rparr>,
            \<lparr>X = 9, Y = 10, DateText = [], YearDayNo = 10\<rparr>,
            \<lparr>X = 16, Y = 17, DateText = [], YearDayNo = 17\<rparr>]"]
  by (simp add: walkFn_def snapshot_def sortPost_def serveGaleWarnings_def
      extractWarningNumbers_def sortUpTo12_def virtualPoints_Nil virtualPoints_Cons offsetOf_def
      refOf_def Let_def)

lemma extract_dates:
  assumes "sortPost (fst (Walk [] dir)) (Sort (fst (Walk [] dir)))"
  shows "map Date (fst (extractWarningNumbers Sort dir)) = sort (map Date (fst (Walk [] dir)))"
proof -
  have "map Date (fst (extractWarningNumbers Sort dir)) = map Date (Sort (fst (Walk [] dir)))"
    by (simp add: extractWarningNumbers_def fill_Date split: prod.splits)
  with sortPost_dates [OF assms] show ?thesis
    by simp
qed

text \<open>
  Claim C3, as amended. With any sort that keeps the library's promise, the extraction
  returns the entries in ascending order of their dates, and, the walk meeting no error,
  the dates come out in the same sequence whatever the order of the walk. Nothing is
  promised on the order of entries that have the same date.
\<close>

theorem sorted_by_timestamp:
  assumes "sortPost (fst (Walk [] dir)) (Sort (fst (Walk [] dir)))"
  shows "sorted (map Date (fst (extractWarningNumbers Sort dir))) \<and>
         mset (map Date (fst (extractWarningNumbers Sort dir))) = mset (map Date (fst (Walk [] dir))) \<and>
         (mset dir' = mset dir \<and> snd (Walk [] dir) = None \<and>
          sortPost (fst (Walk [] dir')) (Sort (fst (Walk [] dir'))) \<longrightarrow>
            map Date (fst (extractWarningNumbers Sort dir')) =
              map Date (fst (extractWarningNumbers Sort dir)) \<and>
            snd (extractWarningNumbers Sort dir') = None)"
proof (intro conjI impI)
  show "sorted (map Date (fst (extractWarningNumbers Sort dir)))"
    by (simp add: extract_dates [of dir Sort, OF assms])
  show "mset (map Date (fst (extractWarningNumbers Sort dir))) = mset (map Date (fst (Walk [] dir)))"
    by (simp add: extract_dates [of dir Sort, OF assms])
next
  assume a: "mset dir' = mset dir \<and> snd (Walk [] dir) = None \<and>
          sortPost (fst (Walk [] dir')) (Sort (fst (Walk [] dir')))"
  then have m: "mset (fst (Walk [] dir')) = mset (fst (Walk [] dir))"
    and e: "snd (Walk [] dir') = None"
    using Walk_mset [of dir' dir] by simp_all
  from m have "mset (map Date (fst (Walk [] dir'))) = mset (map Date (fst (Walk [] dir)))"
    by simp
  then have "sort (map Date (fst (Walk [] dir'))) = sort (map Date (fst (Walk [] dir)))"
    using properties_for_sort
      [of "sort (map Date (fst (Walk [] dir)))" "map Date (fst (Walk [] dir'))"]
    by simp
  with a show "map Date (fst (extractWarningNumbers Sort dir')) =
      map Date (fst (extractWarningNumbers Sort dir))"
    using extract_dates [of dir' Sort] extract_dates [of dir Sort, OF assms] by simp
  from e show "snd (extractWarningNumbers Sort dir') = None"
    by (cases "Walk [] dir'") (simp add: extractWarningNumbers_def)
qed

theorem sorted_by_timestamp_witness:
  "(let dir = [snapshot 1452816000 0, snapshot 1452384000 36, snapshot 1451606400 0];
        dir' = [snapshot 1451606400 0, snapshot 1452384000 36, snapshot 1452816000 0]
    in sortPost (fst (Walk [] dir)) (sortUpTo12 (fst (Walk [] dir))) \<and>
       mset dir' = mset dir \<and> snd (Walk [] dir) = None \<and>
       sortPost (fst (Walk [] dir')) (sortUpTo12 (fst (Walk [] dir'))) \<and>
       sorted (map Date (fst (extractWarningNumbers sortUpTo12 dir))) \<and>
       map Date (fst (extractWarningNumbers sortUpTo12 dir)) = [1451606400, 1452384000, 1452816000] \<and>
       map Date (fst (extractWarningNumbers sortUpTo12 dir')) =
         map Date (fst (extractWarningNumbers sortUpTo12 dir)))"
  using sorted_by_timestamp
    [of "[snapshot 1452816000 0, snapshot 1452384000 36, snapshot 1451606400 0]" sortUpTo12
        "[snapshot 1451606400 0, snapshot 1452384000 36, snapshot 1452816000 0]"]
  by (simp add: small_sort_eval sortPost_def extractWarningNumbers_def snapshot_def walkFn_def)

text \<open>
  The claim as stated wants entries of equal date in the order of the walk. Seven
  snapshots, the first two stamped alike with numbers 5 and 7: the library's sort of
  Go 1.6 to 1.18 returns them as 7, 5.
\<close>

theorem stable_tie_break_counterexample:
  "(let dir = [snapshot 1452816000 5, snapshot 1452816000 7,
               snapshot 1452384000 1, snapshot 1452384000 2, snapshot 1452384000 3,
               snapshot 1452384000 4, snapshot 1451606400 9]
    in sortPost (fst (Walk [] dir)) (sortUpTo12 (fst (Walk [] dir))) \<and>
       extractWarningNumbers sortUpTo12 dir =
         ([\<lparr>Number = 9, Date = 1451606400\<rparr>,
           \<lparr>Number = 1, Date = 1452384000\<rparr>, \<lparr>Number = 2, Date = 1452384000\<rparr>,
           \<lparr>Number = 3, Date = 1452384000\<rparr>, \<lparr>Number = 4, Date = 1452384000\<rparr>,
           \<lparr>Number = 7, Date = 1452816000\<rparr>, \<lparr>Number = 5, Date = 1452816000\<rparr>], None) \<and>
       fst (extractWarningNumbers sortUpTo12 dir) \<noteq> fill 1 (sort_key Date (fst (Walk [] dir))))"
  by (simp add: small_sort_eval sortPost_def extractWarningNumbers_def)

end
